theory Spec2Isabelle
  imports Main
begin

section \<open>Session state shared by the Receiver and the Dispatcher\<close>

text \<open>
  The scripts keep their state in module-level globals: the acknowledgement queue
  \<^verbatim>\<open>_rxq\<close>, the last device state \<^verbatim>\<open>_last_state\<close> and the stop event
  \<^verbatim>\<open>_stop\<close>. The model threads them through every function as a record, together
  with what the environment will do and what the program did:
  \<^item> \<open>feed\<close>: the lines the device will send, grouped by the blocking operation of the
    Dispatcher (a sleep, a queue get with a timeout) during which the Receiver thread
    reads them; once the list is used up the device is silent;
  \<^item> \<open>clock\<close>: the outcome of each successive deadline test
    \<^verbatim>\<open>time.time() - start < timeout\<close> (wall-clock time is not modelled); once the list
    is used up every deadline has passed, so every timed loop ends;
  \<^item> \<open>trace\<close>: the actions of the Dispatcher thread in the order they happen;
  \<^item> \<open>out\<close>: the messages printed that the properties below speak about (stream
    markers, warnings); the other diagnostic prints are left out;
  \<^item> \<open>rx_log\<close>: the puts of the Receiver thread that did not go through at once;
  \<^item> \<open>blocked_put\<close> and \<open>unread\<close>: for the Receiver of sending.py, the line whose put
    is blocked on the full queue, and the lines that have arrived on the link and wait
    in the input buffer of the port because the Receiver does not read while it is
    blocked.
  Lines of the feed are the decoded and stripped text of one \<^verbatim>\<open>readline\<close>; characters
  are ASCII. Failures of the serial port itself (write or read exceptions) are not modelled.
\<close>

datatype event =
    Write string      \<comment> \<open>bytes written to the serial link\<close>
  | Sleep nat         \<comment> \<open>\<^verbatim>\<open>time.sleep\<close>, in milliseconds\<close>
  | Got string        \<comment> \<open>an item taken from \<^verbatim>\<open>_rxq\<close>\<close>
  | Empty             \<comment> \<open>\<^verbatim>\<open>queue.Empty\<close> raised by a get\<close>
  | Expired           \<comment> \<open>a deadline test that came out false\<close>
  | Saw string        \<comment> \<open>a read of \<^verbatim>\<open>_last_state\<close>\<close>
  | ResetInput        \<comment> \<open>\<^verbatim>\<open>ser.reset_input_buffer()\<close>\<close>
  | Close             \<comment> \<open>\<^verbatim>\<open>ser.close()\<close>\<close>

datatype rx_event =
    PutTimedOut nat string  \<comment> \<open>a put with a timeout (ms) raised \<^verbatim>\<open>queue.Full\<close>; the item is dropped\<close>
  | PutBlocked string       \<comment> \<open>a put without timeout found the queue full and blocks\<close>

record world =
  rxq :: "string list"
  last_state :: string
  stop :: bool
  feed :: "string list list"
  clock :: "bool list"
  trace :: "event list"
  out :: "string list"
  rx_log :: "rx_event list"
  blocked_put :: "string option"
  unread :: "string list"

datatype error = UnboundLocalError

subsection \<open>Strings as Python uses them\<close>

definition startswith :: "string \<Rightarrow> string \<Rightarrow> bool" where
  "startswith s p = (take (length p) s = p)"

definition endswith :: "string \<Rightarrow> string \<Rightarrow> bool" where
  "endswith s p = (length p \<le> length s \<and> drop (length s - length p) s = p)"

definition lower_char :: "char \<Rightarrow> char" where
  "lower_char c =
     (if (65::int) \<le> of_char c \<and> of_char c \<le> (90::int)
      then char_of (of_char c + (32::int)) else c)"

definition lower :: "string \<Rightarrow> string" where
  "lower s = map lower_char s"

definition is_space :: "char \<Rightarrow> bool" where
  "is_space c = (c \<in> set [CHR 0x09, CHR 0x0A, CHR 0x0B, CHR 0x0C, CHR 0x0D,
                             CHR 0x1C, CHR 0x1D, CHR 0x1E, CHR 0x1F, CHR 0x20])"

definition strip :: "string \<Rightarrow> string" where
  "strip s = rev (dropWhile is_space (rev (dropWhile is_space s)))"

definition is_digit :: "char \<Rightarrow> bool" where
  "is_digit c = ((48::int) \<le> of_char c \<and> of_char c \<le> (57::int))"

definition digit_val :: "char \<Rightarrow> nat" where
  "digit_val c = nat (of_char c - (48::int))"

definition int_of_digits :: "string \<Rightarrow> nat" where
  "int_of_digits ds = foldl (\<lambda>n c. 10 * n + digit_val c) 0 ds"

definition nl :: char where
  "nl = CHR 0x0A"

subsection \<open>Primitive steps\<close>

definition emit :: "event \<Rightarrow> world \<Rightarrow> world" where
  "emit e w = w\<lparr>trace := trace w @ [e]\<rparr>"

definition say :: "string \<Rightarrow> world \<Rightarrow> world" where
  "say m w = w\<lparr>out := out w @ [m]\<rparr>"

definition ser_write :: "string \<Rightarrow> world \<Rightarrow> world" where
  "ser_write bs w = emit (Write bs) w"

text \<open>
  A deadline test takes the next answer of the clock; a test that fails is recorded.
\<close>

definition before_deadline :: "world \<Rightarrow> bool \<times> world" where
  "before_deadline w =
     (case clock w of
        [] \<Rightarrow> (False, emit Expired w)
      | b # bs \<Rightarrow> (b, (if b then w\<lparr>clock := bs\<rparr> else emit Expired (w\<lparr>clock := bs\<rparr>))))"

text \<open>A read of \<^verbatim>\<open>_last_state\<close> by the Dispatcher.\<close>

definition read_state :: "world \<Rightarrow> string \<times> world" where
  "read_state w = (last_state w, emit (Saw (last_state w)) w)"

section \<open>The Receiver of home.py and sender.py\<close>

text \<open>
  \<^verbatim>\<open>_rxq = queue.Queue(maxsize=8192)\<close>. \<^verbatim>\<open>_rxq.put(lower, timeout=0.1)\<close> appends when
  there is room; when the queue is still full after the timeout it raises
  \<^verbatim>\<open>queue.Full\<close>, the handler prints a warning, and the line is dropped. The wait is
  recorded in \<open>rx_log\<close> with its length in milliseconds. A consumer that frees a slot
  during the 0.1 s wait is not modelled.
\<close>

definition RXQ_MAXSIZE :: int where
  "RXQ_MAXSIZE = 8192"

definition rxq_put :: "string \<Rightarrow> nat \<Rightarrow> world \<Rightarrow> world" where
  "rxq_put x timeout_ms w =
     (if int (length (rxq w)) < RXQ_MAXSIZE then w\<lparr>rxq := rxq w @ [x]\<rparr>
      else say ''[WARN] RX queue full; dropping ack''
             (w\<lparr>rx_log := rx_log w @ [PutTimedOut timeout_ms x]\<rparr>))"

text \<open>
  \<^verbatim>\<open>bar = line.find("|")\<close>: the index of the first bar, or -1.
\<close>

definition find_bar :: "string \<Rightarrow> int" where
  "find_bar line =
     (if CHR ''|'' \<in> set line then int (length (takeWhile (\<lambda>c. c \<noteq> CHR ''|'') line)) else -1)"

text \<open>The body of the loop of \<^verbatim>\<open>_rx_loop\<close> for one line that was read.\<close>

definition track_state :: "string \<Rightarrow> world \<Rightarrow> world" where
  "track_state line w =
     (if startswith line ''<'' then
        (let bar = find_bar line in
         if bar > 0 then w\<lparr>last_state := take (nat bar - 1) (drop 1 line)\<rparr>
         else if endswith line ''>'' then w\<lparr>last_state := butlast (drop 1 line)\<rparr>
         else w)
      else w)"

definition is_ack :: "string \<Rightarrow> bool" where
  "is_ack l = (startswith l ''ok'' \<or> startswith l ''error'' \<or> startswith l ''alarm'')"

definition rx_line :: "world \<Rightarrow> string \<Rightarrow> world" where
  "rx_line w line =
     (let w1 = track_state line w;
          lower = lower line
      in if is_ack lower then rxq_put lower 100 w1 else w1)"

text \<open>
  \<^verbatim>\<open>_rx_loop\<close> on the lines that arrive: \<^verbatim>\<open>while not _stop.is_set()\<close> is tested before
  each read, so once the stop event is set nothing more is read.
\<close>

fun rx_loop :: "string list \<Rightarrow> world \<Rightarrow> world" where
  "rx_loop [] w = w"
| "rx_loop (line # lines) w = (if stop w then w else rx_loop lines (rx_line w line))"

text \<open>
  What the Receiver does while the Dispatcher is blocked: it reads the next group of
  lines of the feed.
\<close>

definition receive :: "world \<Rightarrow> world" where
  "receive w =
     (case feed w of
        [] \<Rightarrow> w
      | ls # rest \<Rightarrow> rx_loop ls (w\<lparr>feed := rest\<rparr>))"

definition sleep :: "nat \<Rightarrow> world \<Rightarrow> world" where
  "sleep ms w = receive (emit (Sleep ms) w)"

text \<open>
  \<^verbatim>\<open>_rxq.get(timeout=t)\<close>: the oldest item when there is one, at once or after the
  Receiver has run; \<^verbatim>\<open>queue.Empty\<close> otherwise.
\<close>

definition rxq_take :: "world \<Rightarrow> string option \<times> world" where
  "rxq_take w =
     (case rxq w of
        [] \<Rightarrow> (None, emit Empty w)
      | a # q \<Rightarrow> (Some a, emit (Got a) (w\<lparr>rxq := q\<rparr>)))"

definition rxq_get :: "world \<Rightarrow> string option \<times> world" where
  "rxq_get w = (if rxq w \<noteq> [] then rxq_take w else rxq_take (receive w))"

definition rxq_get_nowait :: "world \<Rightarrow> string option \<times> world" where
  "rxq_get_nowait w = rxq_take w"

section \<open>home.py: status polling\<close>

definition POLL_INTERVAL_MS :: nat where
  "POLL_INTERVAL_MS = 250"

definition request_status :: "world \<Rightarrow> world" where
  "request_status w = ser_write ''?'' w"

section \<open>home.py: sending a line and waiting for its acknowledgement\<close>

definition with_newline :: "string \<Rightarrow> string" where
  "with_newline s = (if endswith s [nl] then s else s @ [nl])"

definition send_line :: "string \<Rightarrow> world \<Rightarrow> world" where
  "send_line s w = ser_write (with_newline s) w"

lemma clock_emit [simp]: "clock (emit e w) = clock w"
  by (simp add: emit_def)

lemma clock_say [simp]: "clock (say m w) = clock w"
  by (simp add: say_def)

lemma clock_rxq_put [simp]: "clock (rxq_put x t w) = clock w"
  by (simp add: rxq_put_def)

lemma clock_track_state [simp]: "clock (track_state l w) = clock w"
  by (simp add: track_state_def Let_def)

lemma clock_rx_line [simp]: "clock (rx_line w l) = clock w"
  by (simp add: rx_line_def Let_def)

lemma clock_rx_loop [simp]: "clock (rx_loop ls w) = clock w"
  by (induction ls arbitrary: w) simp_all

lemma clock_receive [simp]: "clock (receive w) = clock w"
  by (simp add: receive_def split: list.splits)

lemma clock_sleep [simp]: "clock (sleep ms w) = clock w"
  by (simp add: sleep_def)

lemma clock_rxq_take [simp]: "clock (snd (rxq_take w)) = clock w"
  by (simp add: rxq_take_def split: list.splits)

lemma clock_rxq_get [simp]: "clock (snd (rxq_get w)) = clock w"
  by (simp add: rxq_get_def)

lemma clock_ser_write [simp]: "clock (ser_write b w) = clock w"
  by (simp add: ser_write_def)

lemma clock_request_status [simp]: "clock (request_status w) = clock w"
  by (simp add: request_status_def)

lemma clock_read_state [simp]: "clock (snd (read_state w)) = clock w"
  by (simp add: read_state_def)

lemma before_deadline_True:
  "before_deadline w = (True, w1) \<Longrightarrow> length (clock w1) < length (clock w)"
  by (auto simp: before_deadline_def split: list.splits if_splits)

text \<open>
  \<^verbatim>\<open>wait_ack\<close>: until the deadline, take the next acknowledgement from the queue;
  \<open>None\<close> when the deadline passes first.
\<close>

function wait_ack :: "world \<Rightarrow> string option \<times> world" where
  "wait_ack w =
     (case before_deadline w of
        (False, w1) \<Rightarrow> (None, w1)
      | (True, w1) \<Rightarrow>
          (case rxq_get w1 of
             (Some a, w2) \<Rightarrow> (Some a, w2)
           | (None, w2) \<Rightarrow> wait_ack w2))"
  by pat_completeness auto
termination
  apply (relation "measure (\<lambda>w. length (clock w))")
   apply simp
  subgoal for w x1 w1 x2 w2
    using before_deadline_True [of w w1] clock_rxq_get [of w1]
    by (simp add: snd_def split: prod.splits)
  done

declare wait_ack.simps [simp del]

text \<open>
  \<^verbatim>\<open>send_gcode\<close>. The local variable \<^verbatim>\<open>ack\<close> is assigned in the loop body only, so
  it is unbound until the first attempt; the \<^verbatim>\<open>return\<close> after the loop reads it, and
  Python raises \<^verbatim>\<open>UnboundLocalError\<close> when it is still unbound. The loop runs over
  \<^verbatim>\<open>range(1, retries + 1)\<close>; the result is returned together with the world, which
  an exception leaves as it is.
\<close>

datatype 'a pyvar = Unbound | Bound 'a

fun send_gcode_loop ::
  "string \<Rightarrow> int \<Rightarrow> int list \<Rightarrow> string option pyvar \<Rightarrow> world
     \<Rightarrow> (error + bool \<times> string) \<times> world" where
  "send_gcode_loop gcode retries [] ack w =
     (case ack of
        Unbound \<Rightarrow> (Inl UnboundLocalError, w)
      | Bound None \<Rightarrow> (Inr (False, ''timeout''), w)
      | Bound (Some a) \<Rightarrow> (Inr (False, if a \<noteq> [] then a else ''timeout''), w))"
| "send_gcode_loop gcode retries (attempt # rest) ack w =
     (let w1 = send_line gcode w in
      case wait_ack w1 of
        (None, w2) \<Rightarrow> send_gcode_loop gcode retries rest (Bound None) w2
      | (Some a, w2) \<Rightarrow>
          if startswith a ''ok'' then (Inr (True, a), w2)
          else send_gcode_loop gcode retries rest (Bound (Some a))
                 (if attempt < retries then sleep 200 w2 else w2))"

definition send_gcode :: "string \<Rightarrow> int \<Rightarrow> world \<Rightarrow> (error + bool \<times> string) \<times> world" where
  "send_gcode gcode retries w = send_gcode_loop gcode retries [1..retries] Unbound w"

section \<open>home.py: waiting for the device\<close>

text \<open>
  \<^verbatim>\<open>wait_until_idle\<close>: one status request and one poll interval first; then, until
  the deadline, an Idle reading is confirmed by a second reading taken after a further
  poll interval and a fresh status request.
\<close>

function wait_until_idle_loop :: "world \<Rightarrow> bool \<times> world" where
  "wait_until_idle_loop w =
     (case before_deadline w of
        (False, w1) \<Rightarrow> (False, w1)
      | (True, w1) \<Rightarrow>
          (case read_state w1 of
             (s, w2) \<Rightarrow>
               if s = ''Idle'' then
                 (case read_state (sleep 20 (request_status (sleep POLL_INTERVAL_MS w2))) of
                    (s', w3) \<Rightarrow>
                      if s' = ''Idle'' then (True, w3) else wait_until_idle_loop w3)
               else wait_until_idle_loop (request_status (sleep POLL_INTERVAL_MS w2))))"
  by pat_completeness auto
termination
  apply (relation "measure (\<lambda>w. length (clock w))")
    apply simp
  subgoal for w x1 w1 s w2 s' w3
    using before_deadline_True [of w w1] clock_read_state [of w1]
      clock_read_state [of "sleep 20 (request_status (sleep POLL_INTERVAL_MS w2))"]
    by (simp add: snd_def split: prod.splits)
  subgoal for w x1 w1 s w2
    using before_deadline_True [of w w1] clock_read_state [of w1]
    by (simp add: snd_def split: prod.splits)
  done

declare wait_until_idle_loop.simps [simp del]

definition wait_until_idle :: "world \<Rightarrow> bool \<times> world" where
  "wait_until_idle w = wait_until_idle_loop (sleep POLL_INTERVAL_MS (request_status w))"

text \<open>
  \<^verbatim>\<open>wait_motion_complete\<close>: phase 1 polls until a state other than Idle is read or its
  deadline passes; phase 2 is \<^verbatim>\<open>wait_until_idle\<close>.
\<close>

function leave_idle_loop :: "world \<Rightarrow> world" where
  "leave_idle_loop w =
     (case before_deadline w of
        (False, w1) \<Rightarrow> w1
      | (True, w1) \<Rightarrow>
          (case read_state w1 of
             (s, w2) \<Rightarrow>
               if s \<noteq> ''Idle'' then w2
               else leave_idle_loop (request_status (sleep POLL_INTERVAL_MS w2))))"
  by pat_completeness auto
termination
  apply (relation "measure (\<lambda>w. length (clock w))")
   apply simp
  subgoal for w x1 w1 s w2
    using before_deadline_True [of w w1] clock_read_state [of w1]
    by (simp add: snd_def split: prod.splits)
  done

declare leave_idle_loop.simps [simp del]

definition wait_motion_complete :: "world \<Rightarrow> bool \<times> world" where
  "wait_motion_complete w = wait_until_idle (leave_idle_loop (request_status w))"

section \<open>home.py: alarms and unlocking\<close>

text \<open>
  \<^verbatim>\<open>parse_alarm_code\<close> matches \<^verbatim>\<open>^alarm:?\\s*(\\d+)\<close> without regard to case at the
  start of the line and returns the number, or \<open>None\<close>. \<^verbatim>\<open>int()\<close> raises
  \<^verbatim>\<open>ValueError\<close> on more than 4300 digits (the default limit of Python 3.11 and later),
  and the handler returns \<open>None\<close>.
\<close>

definition INT_MAX_STR_DIGITS :: int where
  "INT_MAX_STR_DIGITS = 4300"

definition parse_alarm_code :: "string \<Rightarrow> nat option" where
  "parse_alarm_code ack_line =
     (if lower (take 5 ack_line) = ''alarm'' then
        (let r1 = drop 5 ack_line;
             r2 = (if startswith r1 '':'' then drop 1 r1 else r1);
             r3 = dropWhile is_space r2;
             ds = takeWhile is_digit r3
         in if ds = [] then None
            else if int (length ds) > INT_MAX_STR_DIGITS then None
            else Some (int_of_digits ds))
      else None)"

text \<open>
  \<^verbatim>\<open>unlock_after_alarm\<close>: send the unlock command, sleep, then take items from the
  queue without waiting until it raises \<^verbatim>\<open>queue.Empty\<close>.
\<close>

function drain_rxq :: "world \<Rightarrow> world" where
  "drain_rxq w =
     (case rxq_get_nowait w of
        (None, w1) \<Rightarrow> w1
      | (Some a, w1) \<Rightarrow> drain_rxq w1)"
  by pat_completeness auto
termination
  apply (relation "measure (\<lambda>w. length (rxq w))")
   apply simp
  subgoal for w x w1 a
    by (auto simp: rxq_get_nowait_def rxq_take_def emit_def split: list.splits)
  done

declare drain_rxq.simps [simp del]

definition unlock_after_alarm :: "world \<Rightarrow> world" where
  "unlock_after_alarm w = drain_rxq (sleep 200 (send_line ''$X'' w))"

section \<open>home.py: one homing command with retries\<close>

text \<open>
  The inner \<^verbatim>\<open>while\<close> of \<^verbatim>\<open>send_homing_with_retries\<close>: wait for an
  acknowledgement or for the state to leave Idle. It returns \<^verbatim>\<open>started\<close> and
  \<^verbatim>\<open>ack\<close>. An item that is none of ok, alarm and error is kept in \<^verbatim>\<open>ack\<close> and the
  loop goes on to the status poll, as it does after \<^verbatim>\<open>queue.Empty\<close>.
\<close>

function homing_start_loop :: "string option \<Rightarrow> world \<Rightarrow> (bool \<times> string option) \<times> world" where
  "homing_start_loop ack w =
     (case before_deadline w of
        (False, w1) \<Rightarrow> ((False, ack), w1)
      | (True, w1) \<Rightarrow>
          (case rxq_get w1 of
             (got, w2) \<Rightarrow>
               if got \<noteq> None \<and> startswith (the got) ''ok'' then ((True, got), w2)
               else if got \<noteq> None \<and> (startswith (the got) ''alarm'' \<or> startswith (the got) ''error'')
               then ((False, got), w2)
               else
                 (let ack' = (if got \<noteq> None then got else ack) in
                  case read_state (request_status w2) of
                    (s, w3) \<Rightarrow>
                      if s \<noteq> ''Idle'' then ((True, ack'), w3)
                      else homing_start_loop ack' w3)))"
  by pat_completeness auto
termination
  apply (relation "measure (\<lambda>(a, w). length (clock w))")
   apply simp
  subgoal for ack w x1 w1 got w2 ack' s w3
    using before_deadline_True [of w w1] clock_rxq_get [of w1]
      clock_read_state [of "request_status w2"]
    by (simp add: snd_def split: prod.splits)
  done

declare homing_start_loop.simps [simp del]

text \<open>
  \<^verbatim>\<open>send_homing_with_retries\<close>, over \<^verbatim>\<open>range(1, max_tries + 1)\<close>. An alarm or error
  acknowledgement that arrived before any start: codes 8 and 9 unlock and retry, anything
  else returns \<open>False\<close> at once. No start at all: unlock and retry. Started: wait for
  the motion to complete, and retry when that times out.
\<close>

definition recoverable :: "nat option \<Rightarrow> bool" where
  "recoverable alarm = (alarm = Some 8 \<or> alarm = Some 9)"

fun send_homing_loop :: "string \<Rightarrow> int list \<Rightarrow> world \<Rightarrow> bool \<times> world" where
  "send_homing_loop homing_cmd [] w = (False, w)"
| "send_homing_loop homing_cmd (i # rest) w =
     (case homing_start_loop None (send_line homing_cmd w) of
        ((started, ack), w2) \<Rightarrow>
          if ack \<noteq> None \<and> the ack \<noteq> []
             \<and> (startswith (the ack) ''alarm'' \<or> startswith (the ack) ''error'') \<and> \<not> started
          then
            (if recoverable (parse_alarm_code (the ack))
             then send_homing_loop homing_cmd rest (sleep 500 (unlock_after_alarm w2))
             else (False, w2))
          else if \<not> started
          then send_homing_loop homing_cmd rest (sleep 500 (unlock_after_alarm w2))
          else
            (case wait_motion_complete w2 of
               (True, w3) \<Rightarrow> (True, w3)
             | (False, w3) \<Rightarrow> send_homing_loop homing_cmd rest w3))"

definition send_homing_with_retries :: "string \<Rightarrow> int \<Rightarrow> world \<Rightarrow> bool \<times> world" where
  "send_homing_with_retries homing_cmd max_tries w =
     send_homing_loop homing_cmd [1..max_tries] w"

section \<open>home.py: the homing macro and the sender loop\<close>

text \<open>
  The list \<^verbatim>\<open>steps\<close> of \<^verbatim>\<open>_perform_home_sequence\<close> holds closures; here a step is a
  value and \<open>run_step\<close> is the call \<^verbatim>\<open>step()\<close>. \<^verbatim>\<open>send_gcode\<close> is called with its
  default \<^verbatim>\<open>retries=1\<close>, and \<^verbatim>\<open>[0]\<close> takes the success flag.
\<close>

datatype step = HomeAxis string | WaitMotion | Move string

definition home_steps :: "step list" where
  "home_steps =
     [HomeAxis ''$HZ'', WaitMotion,
      Move ''g0 z180'', WaitMotion,
      HomeAxis ''$HA'', WaitMotion,
      HomeAxis ''$HY'', WaitMotion,
      Move ''g0 y45'', WaitMotion,
      HomeAxis ''$HZ'', WaitMotion,
      HomeAxis ''$HX'', WaitMotion,
      Move ''g0 x45 y45 z45 a45'', WaitMotion]"

fun run_step :: "int \<Rightarrow> step \<Rightarrow> world \<Rightarrow> (error + bool) \<times> world" where
  "run_step homing_retries (HomeAxis cmd) w =
     (case send_homing_with_retries cmd homing_retries w of (ok, w') \<Rightarrow> (Inr ok, w'))"
| "run_step homing_retries WaitMotion w =
     (case wait_motion_complete w of (ok, w') \<Rightarrow> (Inr ok, w'))"
| "run_step homing_retries (Move gcode) w =
     (case send_gcode gcode 1 w of
        (Inl e, w') \<Rightarrow> (Inl e, w')
      | (Inr (ok, ack), w') \<Rightarrow> (Inr ok, w'))"

fun run_steps :: "int \<Rightarrow> step list \<Rightarrow> world \<Rightarrow> (error + bool) \<times> world" where
  "run_steps homing_retries [] w = (Inr True, w)"
| "run_steps homing_retries (step # steps) w =
     (case run_step homing_retries step w of
        (Inl e, w') \<Rightarrow> (Inl e, w')
      | (Inr ok, w') \<Rightarrow>
          if \<not> ok then (Inr False, w') else run_steps homing_retries steps w')"

definition perform_home_sequence :: "int \<Rightarrow> world \<Rightarrow> (error + bool) \<times> world" where
  "perform_home_sequence homing_retries w = run_steps homing_retries home_steps w"

text \<open>
  \<^verbatim>\<open>_sender_loop\<close>. The work queue is given by what each \<^verbatim>\<open>_workq.get(timeout=0.1)\<close>
  returns, in order: \<open>Some item\<close>, or \<open>None\<close> for a get that raised
  \<^verbatim>\<open>queue.Empty\<close> (the Receiver ran meanwhile). When the list is used up the queue
  stays empty for ever: the loop then returns if the stop event is set and polls for ever
  otherwise, which is the outcome \<open>Starved\<close>. An exception ends the thread. Only
  sender.py knows the item \<open>Reset\<close>; home.py matches neither of its two types and goes
  on to the next item.
\<close>

datatype item = Gcode string | Home | Reset | EOF_SENTINEL

datatype outcome = Returned | Raised error | Starved

fun sender_loop :: "int \<Rightarrow> int \<Rightarrow> item option list \<Rightarrow> world \<Rightarrow> outcome \<times> world" where
  "sender_loop homing_retries line_retries [] w =
     (if stop w then (Returned, w) else (Starved, w))"
| "sender_loop homing_retries line_retries (None # q) w =
     (let w1 = receive w in
      if stop w1 then (Returned, w1) else sender_loop homing_retries line_retries q w1)"
| "sender_loop homing_retries line_retries (Some EOF_SENTINEL # q) w = (Returned, w)"
| "sender_loop homing_retries line_retries (Some Home # q) w =
     (case perform_home_sequence homing_retries w of
        (Inl e, w') \<Rightarrow> (Raised e, w')
      | (Inr ok, w') \<Rightarrow>
          if ok then sender_loop homing_retries line_retries q w'
          else (Returned, w'\<lparr>stop := True\<rparr>))"
| "sender_loop homing_retries line_retries (Some (Gcode line) # q) w =
     (case send_gcode line line_retries w of
        (Inl e, w') \<Rightarrow> (Raised e, w')
      | (Inr (ok, ack), w') \<Rightarrow> sender_loop homing_retries line_retries q w')"
| "sender_loop homing_retries line_retries (Some Reset # q) w =
     sender_loop homing_retries line_retries q w"

section \<open>sender.py: homing, the macro and the sender loop\<close>

text \<open>
  sender.py shares the Receiver, the waits, \<^verbatim>\<open>send_gcode\<close>, \<^verbatim>\<open>parse_alarm_code\<close> and
  \<^verbatim>\<open>unlock_after_alarm\<close> with home.py. Its \<^verbatim>\<open>send_homing_with_retries\<close> sends the
  homing command with \<^verbatim>\<open>send_gcode(..., retries=1)\<close>: success returns \<open>True\<close>, alarm 8
  or 9 unlocks and retries, any other outcome (the text \<open>timeout\<close> included) returns
  \<open>False\<close>.
\<close>

fun send_homing_loop_sender :: "string \<Rightarrow> int list \<Rightarrow> world \<Rightarrow> (error + bool) \<times> world" where
  "send_homing_loop_sender homing_cmd [] w = (Inr False, w)"
| "send_homing_loop_sender homing_cmd (i # rest) w =
     (case send_gcode homing_cmd 1 w of
        (Inl e, w') \<Rightarrow> (Inl e, w')
      | (Inr (ok, ack), w') \<Rightarrow>
          if ok then (Inr True, w')
          else if recoverable (parse_alarm_code ack)
          then send_homing_loop_sender homing_cmd rest (sleep 500 (unlock_after_alarm w'))
          else (Inr False, w'))"

definition send_homing_with_retries_sender :: "string \<Rightarrow> int \<Rightarrow> world \<Rightarrow> (error + bool) \<times> world" where
  "send_homing_with_retries_sender homing_cmd max_tries w =
     send_homing_loop_sender homing_cmd [1..max_tries] w"

fun run_step_sender :: "int \<Rightarrow> step \<Rightarrow> world \<Rightarrow> (error + bool) \<times> world" where
  "run_step_sender homing_retries (HomeAxis cmd) w =
     send_homing_with_retries_sender cmd homing_retries w"
| "run_step_sender homing_retries WaitMotion w =
     (case wait_motion_complete w of (ok, w') \<Rightarrow> (Inr ok, w'))"
| "run_step_sender homing_retries (Move gcode) w =
     (case send_gcode gcode 1 w of
        (Inl e, w') \<Rightarrow> (Inl e, w')
      | (Inr (ok, ack), w') \<Rightarrow> (Inr ok, w'))"

fun run_steps_sender :: "int \<Rightarrow> step list \<Rightarrow> world \<Rightarrow> (error + bool) \<times> world" where
  "run_steps_sender homing_retries [] w = (Inr True, w)"
| "run_steps_sender homing_retries (step # steps) w =
     (case run_step_sender homing_retries step w of
        (Inl e, w') \<Rightarrow> (Inl e, w')
      | (Inr ok, w') \<Rightarrow>
          if \<not> ok then (Inr False, w') else run_steps_sender homing_retries steps w')"

definition perform_home_sequence_sender :: "int \<Rightarrow> world \<Rightarrow> (error + bool) \<times> world" where
  "perform_home_sequence_sender homing_retries w = run_steps_sender homing_retries home_steps w"

text \<open>
  \<^verbatim>\<open>_sender_loop\<close> of sender.py: the sentinel waits for the motion to finish before it
  returns, \<open>Reset\<close> writes the soft-reset byte, and every other item is sent as G-code.
\<close>

fun sender_loop_sender :: "int \<Rightarrow> int \<Rightarrow> item option list \<Rightarrow> world \<Rightarrow> outcome \<times> world" where
  "sender_loop_sender homing_retries line_retries [] w =
     (if stop w then (Returned, w) else (Starved, w))"
| "sender_loop_sender homing_retries line_retries (None # q) w =
     (let w1 = receive w in
      if stop w1 then (Returned, w1) else sender_loop_sender homing_retries line_retries q w1)"
| "sender_loop_sender homing_retries line_retries (Some EOF_SENTINEL # q) w =
     (Returned, snd (wait_motion_complete w))"
| "sender_loop_sender homing_retries line_retries (Some Home # q) w =
     (case perform_home_sequence_sender homing_retries w of
        (Inl e, w') \<Rightarrow> (Raised e, w')
      | (Inr ok, w') \<Rightarrow>
          if ok then sender_loop_sender homing_retries line_retries q w'
          else (Returned, w'\<lparr>stop := True\<rparr>))"
| "sender_loop_sender homing_retries line_retries (Some Reset # q) w =
     sender_loop_sender homing_retries line_retries q (ser_write [CHR 0x18] w)"
| "sender_loop_sender homing_retries line_retries (Some (Gcode line) # q) w =
     (case send_gcode line line_retries w of
        (Inl e, w') \<Rightarrow> (Raised e, w')
      | (Inr (ok, ack), w') \<Rightarrow> sender_loop_sender homing_retries line_retries q w')"

definition initial_world :: "string list list \<Rightarrow> bool list \<Rightarrow> world" where
  "initial_world fd ck =
     \<lparr>rxq = [], last_state = ''Unknown'', stop = False, feed = fd, clock = ck,
      trace = [], out = [], rx_log = [], blocked_put = None, unread = []\<rparr>"

section \<open>sending.py: Receiver and primitives\<close>

text \<open>
  The Receiver of sending.py skips empty lines, tracks the state of a line that starts
  with \<^verbatim>\<open><\<close> and contains \<^verbatim>\<open>>\<close>, and puts every line on the queue as it was read; the
  classification is done by \<^verbatim>\<open>wait_ack\<close>. \<^verbatim>\<open>_rxq.put(line)\<close> has no timeout: on a full
  queue the Receiver thread blocks in the put until the Dispatcher has taken an item.
  While it is blocked it reads nothing, and the lines that arrive stay in the input
  buffer of the port.
\<close>

definition track_state_sending :: "string \<Rightarrow> world \<Rightarrow> world" where
  "track_state_sending line w =
     (if startswith line ''<'' \<and> CHR ''>'' \<in> set line then
        w\<lparr>last_state :=
             (if CHR ''|'' \<in> set line
              then take (length (takeWhile (\<lambda>c. c \<noteq> CHR ''|'') line) - 1) (drop 1 line)
              else butlast (drop 1 line))\<rparr>
      else w)"

definition rxq_put_blocking :: "string \<Rightarrow> world \<Rightarrow> world" where
  "rxq_put_blocking x w =
     (if int (length (rxq w)) < RXQ_MAXSIZE then w\<lparr>rxq := rxq w @ [x]\<rparr>
      else w\<lparr>blocked_put := Some x, rx_log := rx_log w @ [PutBlocked x]\<rparr>)"

definition rx_line_sending :: "world \<Rightarrow> string \<Rightarrow> world" where
  "rx_line_sending w line =
     (if line = [] then w else rxq_put_blocking line (track_state_sending line w))"

text \<open>
  \<^verbatim>\<open>_rx_loop\<close> of sending.py (\<^verbatim>\<open>while True\<close>) on the lines available to it: as soon as a
  put blocks, the remaining lines stay unread.
\<close>

fun rx_loop_sending :: "string list \<Rightarrow> world \<Rightarrow> world" where
  "rx_loop_sending [] w = w"
| "rx_loop_sending (line # lines) w =
     (if blocked_put w \<noteq> None then w\<lparr>unread := unread w @ line # lines\<rparr>
      else rx_loop_sending lines (rx_line_sending w line))"

text \<open>
  A blocked put goes through once the queue has room again. The model lets it go through
  the next time the Receiver runs.
\<close>

definition resume_put :: "world \<Rightarrow> world" where
  "resume_put w =
     (case blocked_put w of
        None \<Rightarrow> w
      | Some x \<Rightarrow>
          if int (length (rxq w)) < RXQ_MAXSIZE
          then w\<lparr>rxq := rxq w @ [x], blocked_put := None\<rparr>
          else w)"

definition receive_sending :: "world \<Rightarrow> world" where
  "receive_sending w =
     (let arrived = (case feed w of [] \<Rightarrow> [] | ls # rest \<Rightarrow> ls);
          w1 = resume_put (w\<lparr>feed := tl (feed w)\<rparr>)
      in rx_loop_sending (unread w1 @ arrived) (w1\<lparr>unread := []\<rparr>))"

definition sleep_sending :: "nat \<Rightarrow> world \<Rightarrow> world" where
  "sleep_sending ms w = receive_sending (emit (Sleep ms) w)"

definition rxq_get_sending :: "world \<Rightarrow> string option \<times> world" where
  "rxq_get_sending w = (if rxq w \<noteq> [] then rxq_take w else rxq_take (receive_sending w))"

definition send :: "string \<Rightarrow> world \<Rightarrow> world" where
  "send s w = ser_write (s @ [CHR 0x0D, CHR 0x0A]) w"

lemma clock_track_state_sending [simp]: "clock (track_state_sending l w) = clock w"
  by (simp add: track_state_sending_def)

lemma clock_rx_line_sending [simp]: "clock (rx_line_sending w l) = clock w"
  by (simp add: rx_line_sending_def rxq_put_blocking_def)

lemma clock_rx_loop_sending [simp]: "clock (rx_loop_sending ls w) = clock w"
  by (induction ls arbitrary: w) simp_all

lemma clock_resume_put [simp]: "clock (resume_put w) = clock w"
  by (simp add: resume_put_def split: option.splits)

lemma clock_receive_sending [simp]: "clock (receive_sending w) = clock w"
  by (simp add: receive_sending_def Let_def)

lemma clock_sleep_sending [simp]: "clock (sleep_sending ms w) = clock w"
  by (simp add: sleep_sending_def)

lemma clock_rxq_get_sending [simp]: "clock (snd (rxq_get_sending w)) = clock w"
  by (simp add: rxq_get_sending_def)

lemma clock_send [simp]: "clock (send s w) = clock w"
  by (simp add: send_def)

text \<open>
  \<^verbatim>\<open>wait_ack\<close> of sending.py: until the deadline, take lines from the queue and return
  the first one that, lowercased, starts with ok, error or alarm.
\<close>

function wait_ack_sending :: "world \<Rightarrow> string option \<times> world" where
  "wait_ack_sending w =
     (case before_deadline w of
        (False, w1) \<Rightarrow> (None, w1)
      | (True, w1) \<Rightarrow>
          (case rxq_get_sending w1 of
             (got, w2) \<Rightarrow>
               if got \<noteq> None \<and> is_ack (lower (the got)) then (Some (lower (the got)), w2)
               else wait_ack_sending w2))"
  by pat_completeness auto
termination
  apply (relation "measure (\<lambda>w. length (clock w))")
   apply simp
  subgoal for w x1 w1 got w2
    using before_deadline_True [of w w1] clock_rxq_get_sending [of w1]
    by (simp add: snd_def split: prod.splits)
  done

declare wait_ack_sending.simps [simp del]

text \<open>
  \<^verbatim>\<open>wait_state\<close>: until the deadline, send a status query, sleep one poll period and
  read the state once; success as soon as that reading is one of the targets. Every call
  in the script uses the default \<^verbatim>\<open>poll_period=0.25\<close>.
\<close>

function wait_state :: "string list \<Rightarrow> world \<Rightarrow> bool \<times> world" where
  "wait_state targets w =
     (case before_deadline w of
        (False, w1) \<Rightarrow> (False, w1)
      | (True, w1) \<Rightarrow>
          (case read_state (sleep_sending 250 (send ''?'' w1)) of
             (s, w2) \<Rightarrow> if s \<in> set targets then (True, w2) else wait_state targets w2))"
  by pat_completeness auto
termination
  apply (relation "measure (\<lambda>(t, w). length (clock w))")
   apply simp
  subgoal for targets w x1 w1 s w2
    using before_deadline_True [of w w1] clock_read_state [of "sleep_sending 250 (send ''?'' w1)"]
    by (simp add: snd_def split: prod.splits)
  done

declare wait_state.simps [simp del]

section \<open>sending.py: recovery\<close>

text \<open>
  \<^verbatim>\<open>hard_clear\<close>: soft reset byte, settle, flush the input buffer, unlock, disable soft
  limits, force absolute mode, each followed by its bounded wait, then wait for a
  working state. \<^verbatim>\<open>reset_input_buffer\<close> discards what waits unread in the input buffer
  of the port.
\<close>

definition reset_input_buffer :: "world \<Rightarrow> world" where
  "reset_input_buffer w = emit ResetInput (w\<lparr>unread := []\<rparr>)"

lemma clock_reset_input_buffer [simp]: "clock (reset_input_buffer w) = clock w"
  by (simp add: reset_input_buffer_def)

definition hard_clear :: "world \<Rightarrow> world" where
  "hard_clear w =
     (let w1 = reset_input_buffer (sleep_sending 300 (ser_write [CHR 0x18] w));
          w2 = snd (wait_ack_sending (send ''$X'' w1));
          w3 = snd (wait_ack_sending (send ''$20=0'' w2));
          w4 = snd (wait_ack_sending (send ''G90'' w3))
      in snd (wait_state [''Idle'', ''Run'', ''Hold'', ''Jog'', ''Check''] w4))"

definition clear_alarm_if_needed :: "world \<Rightarrow> world" where
  "clear_alarm_if_needed w =
     (case read_state w of
        (s, w1) \<Rightarrow>
          if s = ''Alarm'' then snd (wait_state [''Idle''] (hard_clear w1)) else w1)"

text \<open>
  \<^verbatim>\<open>send_blocking\<close>, over \<^verbatim>\<open>range(1, retries + 1)\<close>.
\<close>

fun send_blocking_loop :: "string \<Rightarrow> bool \<Rightarrow> int list \<Rightarrow> world \<Rightarrow> bool \<times> world" where
  "send_blocking_loop cmd force_g90 [] w = (False, w)"
| "send_blocking_loop cmd force_g90 (attempt # rest) w =
     (let w1 = clear_alarm_if_needed w;
          w2 = (if force_g90 then snd (wait_ack_sending (send ''G90'' w1)) else w1)
      in case wait_ack_sending (send cmd w2) of
           (ack, w3) \<Rightarrow>
             (case wait_state [''Idle''] w3 of
                (ok_idle, w4) \<Rightarrow>
                  (case read_state w4 of
                     (s, w5) \<Rightarrow>
                       if s = ''Alarm'' \<or> (ack \<noteq> None \<and> startswith (the ack) ''alarm'') \<or> \<not> ok_idle
                       then send_blocking_loop cmd force_g90 rest (hard_clear w5)
                       else (True, w5))))"

definition send_blocking :: "string \<Rightarrow> int \<Rightarrow> bool \<Rightarrow> world \<Rightarrow> bool \<times> world" where
  "send_blocking cmd retries force_g90 w = send_blocking_loop cmd force_g90 [1..retries] w"

text \<open>
  \<^verbatim>\<open>nudge_axis\<close>. The move is \<^verbatim>\<open>f"G1 {axis}{delta} F{feed}"\<close>; the decimal text of the
  float \<^verbatim>\<open>delta\<close> and of \<^verbatim>\<open>feed\<close> is passed in as a string.
\<close>

definition nudge_axis :: "string \<Rightarrow> string \<Rightarrow> string \<Rightarrow> world \<Rightarrow> world" where
  "nudge_axis axis delta feed_txt w =
     (let w1 = snd (wait_ack_sending (send ''G91'' w));
          w2 = snd (wait_ack_sending (send (''G1 '' @ axis @ delta @ '' F'' @ feed_txt) w1));
          w3 = snd (wait_state [''Idle''] w2)
      in snd (wait_ack_sending (send ''G90'' w3)))"

definition upper_char :: "char \<Rightarrow> char" where
  "upper_char c =
     (if (97::int) \<le> of_char c \<and> of_char c \<le> (122::int)
      then char_of (of_char c - (32::int)) else c)"

definition axis_from_home_cmd :: "string \<Rightarrow> string option" where
  "axis_from_home_cmd cmd =
     (if startswith cmd ''$H'' \<and> length cmd \<ge> 3 then Some [upper_char (last cmd)] else None)"

fun contains :: "string \<Rightarrow> string \<Rightarrow> bool" where
  "contains [] p = (p = [])"
| "contains (c # s) p = (startswith (c # s) p \<or> contains s p)"

text \<open>
  \<^verbatim>\<open>homing_step\<close>. \<open>nudge_txt\<close> gives the decimal text of \<^verbatim>\<open>sign * nudge_dist\<close> for a
  positive (\<open>True\<close>) and a negative (\<open>False\<close>) sign; \<^verbatim>\<open>initial_toward_sign\<close> is -1.0 for
  every axis, and \<^verbatim>\<open>nudge_feed\<close> keeps its default 1000.
\<close>

definition initial_toward_sign :: "string \<Rightarrow> bool" where
  "initial_toward_sign axis = False"

fun homing_step_loop ::
  "string \<Rightarrow> (bool \<Rightarrow> string) \<Rightarrow> int list \<Rightarrow> world \<Rightarrow> bool \<times> world" where
  "homing_step_loop cmd nudge_txt [] w = (False, w)"
| "homing_step_loop cmd nudge_txt (attempt # rest) w =
     (let ax = axis_from_home_cmd cmd;
          w1 = clear_alarm_if_needed w
      in case wait_ack_sending (send cmd w1) of
           (ack, w2) \<Rightarrow>
             (case wait_state [''Idle''] w2 of
                (ok_idle, w3) \<Rightarrow>
                  if (ack \<noteq> None \<and> startswith (the ack) ''ok'') \<and> ok_idle then (True, w3)
                  else if ack \<noteq> None \<and> startswith (the ack) ''alarm'' then
                    (if (contains (the ack) ''alarm:9'' \<or> contains (the ack) ''alarm:8'') \<and> ax \<noteq> None
                     then
                       (let sign = (if attempt = 1 then initial_toward_sign (the ax)
                                    else (if attempt mod 2 = 0 then True else False))
                        in homing_step_loop cmd nudge_txt rest
                             (nudge_axis (the ax) (nudge_txt sign) ''1000'' (hard_clear w3)))
                     else homing_step_loop cmd nudge_txt rest (hard_clear w3))
                  else homing_step_loop cmd nudge_txt rest (hard_clear w3)))"

definition homing_step :: "string \<Rightarrow> int \<Rightarrow> (bool \<Rightarrow> string) \<Rightarrow> world \<Rightarrow> bool \<times> world" where
  "homing_step cmd retries nudge_txt w = homing_step_loop cmd nudge_txt [1..retries] w"

section \<open>sending.py: streaming a file\<close>

text \<open>
  The attempts for one line, over \<^verbatim>\<open>range(1, line_retries + 2)\<close>. The result says whether
  streaming goes on to the next line (\<open>True\<close>) or \<^verbatim>\<open>stream_file\<close> returns \<open>False\<close>.
\<close>

fun stream_attempts :: "int \<Rightarrow> string \<Rightarrow> int list \<Rightarrow> world \<Rightarrow> bool \<times> world" where
  "stream_attempts line_retries line [] w = (True, w)"
| "stream_attempts line_retries line (attempt # rest) w =
     (case wait_ack_sending (send line (clear_alarm_if_needed w)) of
        (ack, w2) \<Rightarrow>
          if ack = None then (True, clear_alarm_if_needed w2)
          else if startswith (the ack) ''ok'' then (True, w2)
          else if startswith (the ack) ''alarm'' then
            (let w3 = snd (wait_ack_sending (send ''G90'' (hard_clear w2)))
             in if attempt \<le> line_retries then stream_attempts line_retries line rest w3
                else (False, w3))
          else (True, clear_alarm_if_needed w2))"

definition is_comment :: "string \<Rightarrow> bool" where
  "is_comment line = (line = [] \<or> startswith line ''('' \<or> startswith line '';'')"

fun stream_lines :: "int \<Rightarrow> string list \<Rightarrow> world \<Rightarrow> bool \<times> world" where
  "stream_lines line_retries [] w = (True, w)"
| "stream_lines line_retries (raw # rest) w =
     (let line = strip raw in
      if is_comment line then stream_lines line_retries rest w
      else
        (case stream_attempts line_retries line [1..line_retries + 1] w of
           (False, w') \<Rightarrow> (False, w')
         | (True, w') \<Rightarrow> stream_lines line_retries rest w'))"

text \<open>The decimal text of a number, as \<^verbatim>\<open>print\<close> writes it.\<close>

function str_nat :: "nat \<Rightarrow> string" where
  "str_nat n =
     (if n < 10 then [char_of (48 + n)]
      else str_nat (n div 10) @ [char_of (48 + n mod 10)])"
  by pat_completeness auto
termination
  by (relation "measure id") auto

declare str_nat.simps [simp del]

text \<open>
  \<^verbatim>\<open>stream_file\<close>. \<open>file_size\<close> is what \<^verbatim>\<open>os.path.getsize(path)\<close> returns, or \<open>None\<close> when it
  raises; the file is its list of lines, or \<open>None\<close> when it cannot be opened. The start
  marker is printed by whichever branch of the first \<^verbatim>\<open>try\<close> runs, with the size when
  there is one; the end marker by the last statement before \<^verbatim>\<open>return True\<close>.
\<close>

definition start_marker :: "string \<Rightarrow> nat option \<Rightarrow> string" where
  "start_marker path file_size =
     (case file_size of
        Some n \<Rightarrow> ''>> START STREAM: '' @ path @ '' ('' @ str_nat n @ '' bytes)''
      | None \<Rightarrow> ''>> START STREAM: '' @ path)"

definition stream_file ::
  "string \<Rightarrow> nat option \<Rightarrow> string list option \<Rightarrow> int \<Rightarrow> world \<Rightarrow> bool \<times> world" where
  "stream_file path file_size file line_retries w =
     (let w1 = say (start_marker path file_size) w;
          w2 = snd (wait_state [''Idle''] (clear_alarm_if_needed w1))
      in case file of
           None \<Rightarrow> (False, w2)
         | Some lines \<Rightarrow>
             (case stream_lines line_retries lines w2 of
                (False, w3) \<Rightarrow> (False, w3)
              | (True, w3) \<Rightarrow> (True, say ''>> END STREAM'' w3)))"

section \<open>sending.py: the steps of main\<close>

text \<open>
  Lines 216 to 246 of \<^verbatim>\<open>main\<close> are eight statements of the same shape,
  \<^verbatim>\<open>if not step(...): print(...); ser.close(); sys.exit(3)\<close>, where the step is
  \<^verbatim>\<open>homing_step(ser, cmd, retries=args.home_retries, nudge_dist=args.nudge)\<close> or
  \<^verbatim>\<open>send_blocking(ser, cmd, ..., retries=3, force_g90=True)\<close>. Here they are a list that
  is run in order; the result says whether the process exited with status 3 or goes on
  to stream the file.
\<close>

datatype main_step = HomingStep string | SendBlocking string

definition main_steps :: "main_step list" where
  "main_steps =
     [HomingStep ''$HZ'', SendBlocking ''G0 Z180'', HomingStep ''$HA'', HomingStep ''$HY'',
      SendBlocking ''G0 Y45'', HomingStep ''$HZ'', HomingStep ''$HX'',
      SendBlocking ''G0 X45 Y45 Z45 A45'']"

fun run_main_step :: "int \<Rightarrow> (bool \<Rightarrow> string) \<Rightarrow> main_step \<Rightarrow> world \<Rightarrow> bool \<times> world" where
  "run_main_step home_retries nudge_txt (HomingStep cmd) w =
     homing_step cmd home_retries nudge_txt w"
| "run_main_step home_retries nudge_txt (SendBlocking cmd) w = send_blocking cmd 3 True w"

fun run_main_steps ::
  "int \<Rightarrow> (bool \<Rightarrow> string) \<Rightarrow> main_step list \<Rightarrow> world \<Rightarrow> bool \<times> world" where
  "run_main_steps home_retries nudge_txt [] w = (True, w)"
| "run_main_steps home_retries nudge_txt (step # steps) w =
     (case run_main_step home_retries nudge_txt step w of
        (False, w') \<Rightarrow> (False, w')
      | (True, w') \<Rightarrow> run_main_steps home_retries nudge_txt steps w')"

datatype main_result = Exited nat | GoesOn

definition main_macro :: "int \<Rightarrow> (bool \<Rightarrow> string) \<Rightarrow> world \<Rightarrow> main_result \<times> world" where
  "main_macro home_retries nudge_txt w =
     (case run_main_steps home_retries nudge_txt main_steps w of
        (False, w') \<Rightarrow> (Exited 3, emit Close w')
      | (True, w') \<Rightarrow> (GoesOn, w'))"

section \<open>Reading a trace\<close>

text \<open>The bytes written to the link, in order.\<close>

definition writes :: "event list \<Rightarrow> string list" where
  "writes es = concat (map (\<lambda>e. case e of Write b \<Rightarrow> [b] | _ \<Rightarrow> []) es)"

text \<open>
  A monitor for "at most one command awaits a reply". A command written makes it pending
  (the status query \<^verbatim>\<open>?\<close> is not a command and gets no reply); a reply taken from the
  queue or a deadline that passes ends the wait. The monitor gives \<open>None\<close> as soon as a
  command is written while another is pending, and the final pending flag otherwise.
\<close>

fun flight :: "bool \<Rightarrow> event list \<Rightarrow> bool option" where
  "flight pending [] = Some pending"
| "flight pending (e # es) =
     (case e of
        Write b \<Rightarrow> if b = ''?'' then flight pending es
                   else if pending then None else flight True es
      | Got a \<Rightarrow> flight False es
      | Expired \<Rightarrow> flight False es
      | _ \<Rightarrow> flight pending es)"

text \<open>The commands written, the replies taken and the deadlines that passed.\<close>

definition exchanges :: "event list \<Rightarrow> event list" where
  "exchanges es =
     filter (\<lambda>e. case e of Write b \<Rightarrow> b \<noteq> ''?'' | Got a \<Rightarrow> True | Expired \<Rightarrow> True
                      | _ \<Rightarrow> False) es"

definition one_in_flight :: "event list \<Rightarrow> bool" where
  "one_in_flight es = (flight False es \<noteq> None)"

text \<open>The plain commands of a work queue, in the order they were enqueued.\<close>

fun commands :: "item option list \<Rightarrow> string list" where
  "commands [] = []"
| "commands (Some (Gcode line) # q) = line # commands q"
| "commands (i # q) = commands q"

definition plain_item :: "item option \<Rightarrow> bool" where
  "plain_item i = (case i of None \<Rightarrow> True | Some (Gcode line) \<Rightarrow> True | Some other \<Rightarrow> False)"

text \<open>One attempt of \<^verbatim>\<open>send_gcode\<close>: the write, the gets that found nothing, the end.\<close>

definition attempt :: "string \<Rightarrow> nat \<Rightarrow> event \<Rightarrow> event list" where
  "attempt l j r = Write l # replicate j Empty @ [r]"

definition closing :: "event \<Rightarrow> bool" where
  "closing r = (r = Expired \<or> (\<exists>a. r = Got a))"

definition exchange :: "string \<Rightarrow> nat \<Rightarrow> bool \<Rightarrow> string \<Rightarrow> event list \<Rightarrow> bool" where
  "exchange l m ok reply es =
     (writes es = replicate (length (writes es)) l
      \<and> 1 \<le> length (writes es) \<and> length (writes es) \<le> m
      \<and> ResetInput \<notin> set es
      \<and> flight False es = Some False
      \<and> (ok \<longleftrightarrow> (\<exists>x. Got x \<in> set es \<and> startswith x ''ok''))
      \<and> (ok \<longrightarrow> last es = Got reply)
      \<and> (\<not> ok \<longrightarrow> length (writes es) = m
            \<and> ((last es = Expired \<and> reply = ''timeout'')
               \<or> (\<exists>x. last es = Got x \<and> reply = (if x \<noteq> [] then x else ''timeout''))))
      \<and> (ok \<longrightarrow> startswith reply ''ok'')
      \<and> (\<forall>x. Got x \<in> set (butlast es) \<longrightarrow> \<not> startswith x ''ok''))"

text \<open>
  What the sender loop does for one plain command \<open>c\<close> with the budget \<open>line_retries\<close>:
  it writes \<open>c\<close> and nothing else, between one and \<open>line_retries\<close> times; it never writes
  while a write is pending and leaves nothing pending; it takes no ok reply before the
  end; and it ends either on an ok reply it has taken or with the budget used up.
\<close>

definition served :: "int \<Rightarrow> string \<Rightarrow> event list \<Rightarrow> bool" where
  "served line_retries c b =
     (writes b = replicate (length (writes b)) (with_newline c)
      \<and> 1 \<le> length (writes b) \<and> int (length (writes b)) \<le> line_retries
      \<and> flight False b = Some False
      \<and> (\<forall>x. Got x \<in> set (butlast b) \<longrightarrow> \<not> startswith x ''ok'')
      \<and> ((\<exists>a. last b = Got a \<and> startswith a ''ok'')
           \<or> int (length (writes b)) = line_retries))"

text \<open>
  Vocabulary for the Receiver: the replies among the lines read (home.py and sender.py),
  the free slots of the queue, the non-empty lines (sending.py queues each of them), and
  everything the Receiver of sending.py holds for the Dispatcher, in order: the queue, the
  line of a blocked put, and the lines still unread.
\<close>

definition acks_of :: "string list \<Rightarrow> string list" where
  "acks_of lines = filter is_ack (map lower lines)"

definition room :: "world \<Rightarrow> nat" where
  "room w = nat (RXQ_MAXSIZE - int (length (rxq w)))"

definition nonempty :: "string list \<Rightarrow> string list" where
  "nonempty lines = filter (\<lambda>l. l \<noteq> []) lines"

definition waiting :: "world \<Rightarrow> string list" where
  "waiting w =
     rxq w @ (case blocked_put w of None \<Rightarrow> [] | Some x \<Rightarrow> [x]) @ nonempty (unread w)"

definition tracked :: "string list \<Rightarrow> world \<Rightarrow> world" where
  "tracked lines w = foldl (\<lambda>w l. track_state l w) w lines"

text \<open>The homing and move steps of the macro, without the waits between them.\<close>

definition macro_moves :: "step list" where
  "macro_moves =
     [HomeAxis ''$HZ'', Move ''g0 z180'', HomeAxis ''$HA'', HomeAxis ''$HY'', Move ''g0 y45'',
      HomeAxis ''$HZ'', HomeAxis ''$HX'', Move ''g0 x45 y45 z45 a45'']"

text \<open>The events of a confirmed Idle reading in \<^verbatim>\<open>wait_until_idle\<close>.\<close>

definition confirmation :: "event list" where
  "confirmation = [Saw ''Idle'', Sleep POLL_INTERVAL_MS, Write ''?'', Sleep 20, Saw ''Idle'']"

section \<open>Concrete sessions\<close>

text \<open>A session whose acknowledgement queue is full: 8192 replies, the oldest an error.\<close>

definition full_rxq_world :: world where
  "full_rxq_world = (initial_world [] [])\<lparr>rxq := ''error:1'' # replicate 8191 ''ok''\<rparr>"

text \<open>
  A device that reports Idle once and is running by the next report, and one that stays
  Idle.
\<close>

definition stale_idle_world :: world where
  "stale_idle_world = initial_world [[''<Idle|MPos:0,0,0>''], [''<Run|MPos:0,0,0>'']] [True, True, True]"

definition steady_idle_world :: world where
  "steady_idle_world = initial_world [[''<Idle|MPos:0,0,0>''], [], [''<Idle|MPos:0,0,0>'']] [True, True, True]"

text \<open>
  Sessions for one command: an error and then ok; an error and then Idle; an alarm.
\<close>

definition retry_world :: world where
  "retry_world = initial_world [[], [''error:2''], [''ok'']] [True, True, True]"

definition error_reply_world :: world where
  "error_reply_world = initial_world [[''error:20''], [''<Idle|MPos:0,0,0>'']] [True, True]"

definition alarm_reply_world :: world where
  "alarm_reply_world = initial_world [[''ALARM:1'']] [True]"

text \<open>Two commands with an empty poll between them, and a device that answers ok.\<close>

definition two_commands :: "item option list" where
  "two_commands = [Some (Gcode ''G0 X1''), None, Some (Gcode ''G0 X2'')]"

definition ok_world :: world where
  "ok_world = initial_world [[''ok''], [], [''ok'']] [True, True]"

text \<open>
  A device that answers the first homing command with alarm 3; and one that answers ok to
  everything and reports Idle, with a clock that lets each wait of the macro succeed.
\<close>

definition fatal_alarm_world :: world where
  "fatal_alarm_world = initial_world [[''ALARM:3'']] [True, True, True, True]"

definition homing_clock :: "bool list" where
  "homing_clock =
     concat (map (\<lambda>s. case s of HomeAxis c \<Rightarrow> [True, False, True] | WaitMotion \<Rightarrow> [False, True]
                            | Move g \<Rightarrow> [True]) home_steps)"

definition cooperative_world :: world where
  "cooperative_world = initial_world (replicate 40 [''<Idle>'', ''ok'']) homing_clock"

text \<open>
  A device that starts to move on the homing command without answering it, and sends the
  ok together with the Idle report when the motion is over.
\<close>

definition moving_world :: world where
  "moving_world =
     initial_world [[''<Run>''], [''ok'', ''<Idle>''], [], [], [''<Run>''], [''<Idle>''], [], []]
       (replicate 7 True)"

text \<open>
  A device that answers ok to a first command and alarm 3 to the homing command after it,
  and what is still queued behind the Home item.
\<close>

definition abort_world :: world where
  "abort_world = initial_world [[''ok''], [''ALARM:3'']] [True, True]"

definition abort_queue :: "item option list" where
  "abort_queue = [Some (Gcode ''G0 X2''), Some EOF_SENTINEL]"

section \<open>Properties\<close>

subsection \<open>What the primitive steps add to the trace\<close>

lemma trace_emit [simp]: "trace (emit e w) = trace w @ [e]"
  by (simp add: emit_def)

lemma trace_say [simp]: "trace (say m w) = trace w"
  by (simp add: say_def)

lemma trace_rxq_put [simp]: "trace (rxq_put x t w) = trace w"
  by (simp add: rxq_put_def)

lemma trace_track_state [simp]: "trace (track_state l w) = trace w"
  by (simp add: track_state_def Let_def)

lemma trace_rx_line [simp]: "trace (rx_line w l) = trace w"
  by (simp add: rx_line_def Let_def)

lemma trace_rx_loop [simp]: "trace (rx_loop ls w) = trace w"
  by (induction ls arbitrary: w) simp_all

lemma trace_receive [simp]: "trace (receive w) = trace w"
  by (simp add: receive_def split: list.splits)

lemma trace_sleep [simp]: "trace (sleep ms w) = trace w @ [Sleep ms]"
  by (simp add: sleep_def)

lemma trace_ser_write [simp]: "trace (ser_write b w) = trace w @ [Write b]"
  by (simp add: ser_write_def)

lemma trace_request_status [simp]: "trace (request_status w) = trace w @ [Write ''?'']"
  by (simp add: request_status_def)

lemma trace_send_line [simp]: "trace (send_line s w) = trace w @ [Write (with_newline s)]"
  by (simp add: send_line_def with_newline_def)

lemma read_state_eq:
  "read_state w = (s, w') \<Longrightarrow> s = last_state w \<and> w' = emit (Saw s) w"
  by (auto simp: read_state_def)

lemma before_deadline_trace:
  "before_deadline w = (b, w1) \<Longrightarrow> trace w1 = trace w @ (if b then [] else [Expired])"
  by (auto simp: before_deadline_def split: list.splits if_splits)

lemma rxq_take_trace:
  "rxq_take w = (r, w') \<Longrightarrow>
   trace w' = trace w @ [case r of None \<Rightarrow> Empty | Some a \<Rightarrow> Got a]"
  by (auto simp: rxq_take_def split: list.splits)

lemma rxq_get_trace:
  "rxq_get w = (r, w') \<Longrightarrow>
   trace w' = trace w @ [case r of None \<Rightarrow> Empty | Some a \<Rightarrow> Got a]"
  by (auto simp: rxq_get_def dest: rxq_take_trace split: if_splits)

lemma wait_ack_trace:
  "wait_ack w = (r, w') \<Longrightarrow>
   \<exists>k. trace w' = trace w @ replicate k Empty @ [case r of None \<Rightarrow> Expired | Some a \<Rightarrow> Got a]"
proof (induction w arbitrary: r w' rule: wait_ack.induct)
  case (1 w)
  obtain b w1 where b: "before_deadline w = (b, w1)" by (cases "before_deadline w")
  show ?case
  proof (cases b)
    case False
    with b 1(2) have "r = None" "w' = w1" by (auto simp: wait_ack.simps [of w])
    with b False show ?thesis
      using before_deadline_trace [OF b] by (intro exI [of _ 0]) simp
  next
    case True
    obtain g w2 where g: "rxq_get w1 = (g, w2)" by (cases "rxq_get w1")
    have t1: "trace w1 = trace w" using before_deadline_trace [OF b] True by simp
    show ?thesis
    proof (cases g)
      case (Some a)
      with b True g 1(2) have "r = Some a" "w' = w2" by (auto simp: wait_ack.simps [of w])
      then show ?thesis using rxq_get_trace [OF g] Some t1 by (intro exI [of _ 0]) simp
    next
      case None
      with b True g 1(2) have "wait_ack w2 = (r, w')" by (auto simp: wait_ack.simps [of w])
      with "1.IH" [of b w1 g w2 r w'] b g True None
      obtain k where k: "trace w' = trace w2 @ replicate k Empty @ [case r of None \<Rightarrow> Expired | Some a \<Rightarrow> Got a]"
        by auto
      have "trace w2 = trace w @ [Empty]" using rxq_get_trace [OF g] None t1 by simp
      with k show ?thesis by (intro exI [of _ "Suc k"]) simp
    qed
  qed
qed

lemma drain_rxq_empty: "rxq (drain_rxq w) = []"
proof (induction w rule: drain_rxq.induct)
  case (1 w)
  show ?case
  proof (cases "rxq w")
    case Nil
    then show ?thesis
      by (simp add: drain_rxq.simps [of w] rxq_get_nowait_def rxq_take_def emit_def)
  next
    case (Cons a q)
    then have g: "rxq_get_nowait w = (Some a, emit (Got a) (w\<lparr>rxq := q\<rparr>))"
      by (simp add: rxq_get_nowait_def rxq_take_def)
    from "1.IH" [OF g [symmetric] refl] g show ?thesis
      by (simp add: drain_rxq.simps [of w])
  qed
qed

lemma drain_rxq_trace: "trace (drain_rxq w) = trace w @ map Got (rxq w) @ [Empty]"
proof (induction w rule: drain_rxq.induct)
  case (1 w)
  show ?case
  proof (cases "rxq w")
    case Nil
    then show ?thesis
      by (simp add: drain_rxq.simps [of w] rxq_get_nowait_def rxq_take_def emit_def)
  next
    case (Cons a q)
    then have g: "rxq_get_nowait w = (Some a, emit (Got a) (w\<lparr>rxq := q\<rparr>))"
      by (simp add: rxq_get_nowait_def rxq_take_def)
    from "1.IH" [OF g [symmetric] refl] g Cons show ?thesis
      by (simp add: drain_rxq.simps [of w] emit_def)
  qed
qed

text \<open>
  C9. When \<^verbatim>\<open>unlock_after_alarm\<close> returns, \<^verbatim>\<open>_rxq\<close> is empty, whatever it held at the
  call: after the unlock command and the sleep, every reply then in the queue is taken
  (and discarded) before the function returns, so none of them is left to be taken as
  the acknowledgement of a later command.
\<close>

theorem unlock_after_alarm_empties_rxq:
  "rxq (unlock_after_alarm w) = []
   \<and> trace (unlock_after_alarm w) =
       trace w @ [Write (''$X'' @ [nl]), Sleep 200]
         @ map Got (rxq (sleep 200 (send_line ''$X'' w))) @ [Empty]"
  by (simp add: unlock_after_alarm_def drain_rxq_empty drain_rxq_trace with_newline_def endswith_def nl_def)

subsection \<open>send_gcode\<close>

lemma send_gcode_loop_bound:
  "ack \<noteq> Unbound \<Longrightarrow> \<exists>r. fst (send_gcode_loop g n as ack w) = Inr r"
proof (induction as arbitrary: ack w)
  case Nil
  then show ?case by (cases ack) (auto split: option.splits)
next
  case (Cons a as)
  obtain r w2 where r: "wait_ack (send_line g w) = (r, w2)"
    by (cases "wait_ack (send_line g w)")
  show ?case
  proof (cases r)
    case None
    with r show ?thesis using Cons.IH [of "Bound None" w2] by simp
  next
    case (Some x)
    with r show ?thesis
      using Cons.IH [of "Bound (Some x)" w2] Cons.IH [of "Bound (Some x)" "sleep 200 w2"]
      by auto
  qed
qed

lemma send_gcode_loop_cons:
  "\<exists>r. fst (send_gcode_loop g n (a # as) ack w) = Inr r"
proof -
  obtain r w2 where r: "wait_ack (send_line g w) = (r, w2)"
    by (cases "wait_ack (send_line g w)")
  show ?thesis
  proof (cases r)
    case None
    with r show ?thesis using send_gcode_loop_bound [of "Bound None" g n as w2] by simp
  next
    case (Some x)
    with r show ?thesis
      using send_gcode_loop_bound [of "Bound (Some x)" g n as w2]
        send_gcode_loop_bound [of "Bound (Some x)" g n as "sleep 200 w2"]
      by auto
  qed
qed

text \<open>
  C10. \<^verbatim>\<open>send_gcode\<close> returns a (success, last reply) pair exactly when
  \<open>retries \<ge> 1\<close>. With \<open>retries = 0\<close> the loop body never runs, nothing is written to
  the link, and the read of the unassigned \<^verbatim>\<open>ack\<close> raises instead of returning a
  timeout outcome.
\<close>

theorem send_gcode_needs_one_try:
  "((\<exists>r. fst (send_gcode gcode retries w) = Inr r) \<longleftrightarrow> 1 \<le> retries)
   \<and> send_gcode gcode 0 w = (Inl UnboundLocalError, w)"
proof -
  have a: "1 \<le> retries \<Longrightarrow> \<exists>r. fst (send_gcode gcode retries w) = Inr r"
  proof -
    assume "1 \<le> retries"
    then have "[1..retries] = 1 # [2..retries]" by (simp add: upto_rec1)
    then show ?thesis
      unfolding send_gcode_def using send_gcode_loop_cons [of gcode retries 1 "[2..retries]" Unbound w]
      by simp
  qed
  have b: "\<not> 1 \<le> retries \<Longrightarrow> send_gcode gcode retries w = (Inl UnboundLocalError, w)"
    by (simp add: send_gcode_def)
  have c: "send_gcode gcode 0 w = (Inl UnboundLocalError, w)"
    by (simp add: send_gcode_def)
  from a b c show ?thesis by (cases "1 \<le> retries") auto
qed

subsection \<open>Waiting for Idle\<close>

lemma last_state_emit [simp]: "last_state (emit e w) = last_state w"
  by (simp add: emit_def)

lemma wait_until_idle_loop_confirmed:
  "wait_until_idle_loop w = (True, w') \<Longrightarrow>
   (\<exists>pre. trace w' = trace w @ pre @ confirmation) \<and> last_state w' = ''Idle''"
proof (induction w rule: wait_until_idle_loop.induct)
  case (1 w)
  obtain b w1 where b: "before_deadline w = (b, w1)" by (cases "before_deadline w")
  with 1(3) have bt: "b = True"
    by (cases b) (auto simp: wait_until_idle_loop.simps [of w])
  have t1: "trace w1 = trace w" using before_deadline_trace [OF b] bt by simp
  obtain s w2 where s: "read_state w1 = (s, w2)" by (cases "read_state w1")
  have t2: "trace w2 = trace w @ [Saw s]" using read_state_eq [OF s] t1 by simp
  show ?case
  proof (cases "s = ''Idle''")
    case True
    let ?w = "sleep 20 (request_status (sleep POLL_INTERVAL_MS w2))"
    obtain s' w3 where s': "read_state ?w = (s', w3)" by (cases "read_state ?w")
    have t3: "trace w3 = trace w @ [Saw ''Idle'', Sleep POLL_INTERVAL_MS, Write ''?'', Sleep 20, Saw s']"
      using read_state_eq [OF s'] t2 True by simp
    show ?thesis
    proof (cases "s' = ''Idle''")
      case True
      with b bt s \<open>s = ''Idle''\<close> s' 1(3) have "w' = w3"
        by (simp add: wait_until_idle_loop.simps [of w])
      moreover have "last_state w3 = ''Idle''" using read_state_eq [OF s'] True by simp
      ultimately show ?thesis using t3 True by (simp add: confirmation_def)
    next
      case False
      with b bt s \<open>s = ''Idle''\<close> s' 1(3) have r: "wait_until_idle_loop w3 = (True, w')"
        by (simp add: wait_until_idle_loop.simps [of w])
      from "1.IH"(1) [of b w1 s w2 s' w3] b bt s s' \<open>s = ''Idle''\<close> False r
      obtain pre where "trace w' = trace w3 @ pre @ confirmation" "last_state w' = ''Idle''"
        by auto
      with t3 show ?thesis by auto
    qed
  next
    case False
    let ?w = "request_status (sleep POLL_INTERVAL_MS w2)"
    from b bt s False 1(3) have r: "wait_until_idle_loop ?w = (True, w')"
      by (simp add: wait_until_idle_loop.simps [of w])
    from "1.IH"(2) [of b w1 s w2] b bt s False r
    obtain pre where "trace w' = trace ?w @ pre @ confirmation" "last_state w' = ''Idle''"
      by auto
    with t2 show ?thesis by auto
  qed
qed

text \<open>
  C2, amended. \<^verbatim>\<open>wait_until_idle\<close> of home.py and sender.py returns \<open>True\<close> only after
  two readings of Idle: the first is followed by a further poll interval, a fresh status
  request and a short sleep, and then the second reading is Idle as well; the state is
  Idle when it returns. A single Idle reading that the next report contradicts is not a
  success.
\<close>

theorem wait_until_idle_double_confirmation:
  assumes "wait_until_idle w = (True, w')"
  shows "(\<exists>pre. trace w' = trace w @ [Write ''?'', Sleep POLL_INTERVAL_MS] @ pre @
            [Saw ''Idle'', Sleep POLL_INTERVAL_MS, Write ''?'', Sleep 20, Saw ''Idle''])
         \<and> last_state w' = ''Idle''"
  using wait_until_idle_loop_confirmed [of "sleep POLL_INTERVAL_MS (request_status w)" w'] assms
  by (auto simp: wait_until_idle_def confirmation_def)


text \<open>
  C2, as stated, fails for \<^verbatim>\<open>wait_state\<close> of sending.py, the wait that script uses
  for Idle: it returns \<open>True\<close> on the first Idle reading, while the next report of the
  device (Run) is still unread.
\<close>

theorem wait_state_single_observation_cex:
  "fst (wait_state [''Idle''] stale_idle_world) = True
   \<and> trace (snd (wait_state [''Idle''] stale_idle_world))
       = [Write [CHR ''?'', CHR 0x0D, CHR 0x0A], Sleep 250, Saw ''Idle'']
   \<and> feed (snd (wait_state [''Idle''] stale_idle_world)) = [[''<Run|MPos:0,0,0>'']]"
  by code_simp

theorem wait_until_idle_double_confirmation_witness:
  "fst (wait_until_idle steady_idle_world) = True
   \<and> (\<exists>pre. trace (snd (wait_until_idle steady_idle_world)) =
          trace steady_idle_world @ [Write ''?'', Sleep POLL_INTERVAL_MS] @ pre @
            [Saw ''Idle'', Sleep POLL_INTERVAL_MS, Write ''?'', Sleep 20, Saw ''Idle''])
   \<and> last_state (snd (wait_until_idle steady_idle_world)) = ''Idle''
   \<and> fst (wait_until_idle stale_idle_world) = False"
proof -
  have f: "fst (wait_until_idle steady_idle_world) = True" by code_simp
  then have h: "wait_until_idle steady_idle_world = (True, snd (wait_until_idle steady_idle_world))"
    by (simp add: prod_eq_iff)
  have g: "fst (wait_until_idle stale_idle_world) = False" by code_simp
  from f g wait_until_idle_double_confirmation [OF h] show ?thesis by simp
qed

subsection \<open>One command and its acknowledgement\<close>

lemma writes_simps [simp]:
  "writes [] = []"
  "writes (Write b # es) = b # writes es"
  "writes (Sleep n # es) = writes es"
  "writes (Got a # es) = writes es"
  "writes (Empty # es) = writes es"
  "writes (Expired # es) = writes es"
  "writes (Saw s # es) = writes es"
  "writes (ResetInput # es) = writes es"
  by (simp_all add: writes_def)

lemma writes_append [simp]: "writes (xs @ ys) = writes xs @ writes ys"
  by (simp add: writes_def)

lemma writes_replicate_Empty [simp]: "writes (replicate j Empty) = []"
  by (induction j) simp_all

lemma flight_append:
  "flight p (xs @ ys) = (case flight p xs of None \<Rightarrow> None | Some p' \<Rightarrow> flight p' ys)"
  by (induction xs arbitrary: p) (auto split: event.splits)

lemma flight_replicate_Empty [simp]: "flight p (replicate j Empty @ es) = flight p es"
  by (induction j) simp_all

lemma attempt_writes [simp]: "closing r \<Longrightarrow> writes (attempt l j r) = [l]"
  by (auto simp: attempt_def closing_def)

lemma attempt_flight [simp]: "closing r \<Longrightarrow> flight False (attempt l j r @ es) = flight False es"
  by (auto simp: attempt_def closing_def)

lemma attempt_set:
  "closing r \<Longrightarrow> set (attempt l j r) \<subseteq> {Write l, Empty, r}"
  by (auto simp: attempt_def)

lemma wait_ack_attempt:
  assumes "wait_ack (send_line g w) = (r, w2)"
  shows "\<exists>j. trace w2 = trace w @ attempt (with_newline g) j (case r of None \<Rightarrow> Expired | Some a \<Rightarrow> Got a)"
  using wait_ack_trace [OF assms] by (auto simp: attempt_def)

lemma attempt_Got_iff:
  "closing r \<Longrightarrow> Got x \<in> set (attempt l j r) \<longleftrightarrow> r = Got x"
  by (auto simp: attempt_def closing_def)

lemma attempt_no_reset: "closing r \<Longrightarrow> ResetInput \<notin> set (attempt l j r)"
  by (auto simp: attempt_def closing_def)

lemma attempt_last [simp]: "last (attempt l j r) = r"
  by (simp add: attempt_def)

lemma attempt_butlast [simp]: "butlast (attempt l j r) = Write l # replicate j Empty"
  by (simp add: attempt_def butlast_append)

lemma exchange_single_timeout:
  "1 \<le> m \<Longrightarrow> \<not> ok \<Longrightarrow> m = 1 \<Longrightarrow> exchange l m ok ''timeout'' (attempt l j Expired)"
  unfolding exchange_def
  using attempt_flight [of Expired l j "[]"]
  by (auto simp: closing_def attempt_Got_iff attempt_no_reset)

lemma exchange_single_ok:
  "1 \<le> m \<Longrightarrow> startswith x ''ok'' \<Longrightarrow> exchange l m True x (attempt l j (Got x))"
  unfolding exchange_def
  using attempt_flight [of "Got x" l j "[]"]
  by (auto simp: closing_def attempt_Got_iff attempt_no_reset)

lemma exchange_single_refused:
  "\<not> startswith x ''ok'' \<Longrightarrow>
   exchange l 1 False (if x \<noteq> [] then x else ''timeout'') (attempt l j (Got x))"
  unfolding exchange_def
  using attempt_flight [of "Got x" l j "[]"]
  by (auto simp: closing_def attempt_Got_iff attempt_no_reset)

lemma exchange_nonempty: "exchange l m ok reply es \<Longrightarrow> es \<noteq> []"
  by (auto simp: exchange_def)

lemma exchange_cons:
  assumes "closing r" "\<And>x. r = Got x \<Longrightarrow> \<not> startswith x ''ok''"
    "sl = [] \<or> sl = [Sleep 200]" "exchange l m ok reply es"
  shows "exchange l (Suc m) ok reply (attempt l j r @ sl @ es)"
proof -
  have ne: "es \<noteq> []" using assms(4) by (rule exchange_nonempty)
  have w: "writes (attempt l j r @ sl @ es) = l # writes es"
    using assms(1,3) by auto
  have f: "flight False (attempt l j r @ sl @ es) = flight False es"
    using assms(1,3) by auto
  have g: "\<And>x. Got x \<in> set (attempt l j r @ sl @ es) \<and> startswith x ''ok''
            \<longleftrightarrow> Got x \<in> set es \<and> startswith x ''ok''"
    using assms(1,2,3) by (auto simp: attempt_Got_iff)
  have r: "ResetInput \<notin> set (attempt l j r @ sl)"
    using assms(1,3) attempt_no_reset [of r l j] by auto
  have la: "last (attempt l j r @ sl @ es) = last es" using ne by simp
  have rep: "writes es = replicate (length (writes es)) l \<Longrightarrow>
             l # writes es = replicate (Suc (length (writes es))) l"
    by simp
  have bl: "butlast (attempt l j r @ sl @ es) = attempt l j r @ sl @ butlast es"
    using ne by (simp add: butlast_append)
  have gb: "\<And>x. Got x \<in> set (attempt l j r @ sl @ butlast es) \<and> startswith x ''ok''
            \<longleftrightarrow> Got x \<in> set (butlast es) \<and> startswith x ''ok''"
    using assms(1,2,3) by (auto simp: attempt_Got_iff)
  show ?thesis
    using assms(4) unfolding exchange_def w f la bl
    using g gb r rep by auto
qed

lemma send_gcode_loop_exchange:
  assumes "send_gcode_loop g n (a # rest) ack w = (Inr (ok, reply), w')"
    and "n \<le> last (a # rest)"
  shows "\<exists>es. trace w' = trace w @ es
           \<and> exchange (with_newline g) (Suc (length rest)) ok reply es"
  using assms
proof (induction rest arbitrary: a ack w)
  case Nil
  obtain r w2 where r: "wait_ack (send_line g w) = (r, w2)"
    by (cases "wait_ack (send_line g w)")
  from wait_ack_attempt [OF r] obtain j where
    t: "trace w2 = trace w @ attempt (with_newline g) j (case r of None \<Rightarrow> Expired | Some a \<Rightarrow> Got a)"
    by blast
  show ?case
  proof (cases r)
    case None
    with r Nil.prems(1) have "ok = False" "reply = ''timeout''" "w' = w2" by auto
    with t None show ?thesis
      using exchange_single_timeout [of 1 ok "with_newline g" j] by auto
  next
    case (Some x)
    show ?thesis
    proof (cases "startswith x ''ok''")
      case True
      with r Some Nil.prems(1) have "ok = True" "reply = x" "w' = w2" by auto
      with t Some True show ?thesis
        using exchange_single_ok [of 1 x "with_newline g" j] by auto
    next
      case False
      with r Some Nil.prems have "ok = False" "reply = (if x \<noteq> [] then x else ''timeout'')"
        "w' = w2" by auto
      with t Some False show ?thesis
        using exchange_single_refused [of x "with_newline g" j] by auto
    qed
  qed
next
  case (Cons b rest)
  obtain r w2 where r: "wait_ack (send_line g w) = (r, w2)"
    by (cases "wait_ack (send_line g w)")
  from wait_ack_attempt [OF r] obtain j where
    t: "trace w2 = trace w @ attempt (with_newline g) j (case r of None \<Rightarrow> Expired | Some a \<Rightarrow> Got a)"
    by blast
  from Cons.prems(2) have la: "n \<le> last (b # rest)" by simp
  show ?case
  proof (cases r)
    case None
    with r Cons.prems(1) have
      "send_gcode_loop g n (b # rest) (Bound None) w2 = (Inr (ok, reply), w')" by simp
    from Cons.IH [OF this la] obtain es where
      es: "trace w' = trace w2 @ es" "exchange (with_newline g) (Suc (length rest)) ok reply es"
      by blast
    have "exchange (with_newline g) (Suc (Suc (length rest))) ok reply
            (attempt (with_newline g) j Expired @ [] @ es)"
      by (rule exchange_cons [OF _ _ _ es(2)]) (auto simp: closing_def)
    with es(1) t None show ?thesis by auto
  next
    case (Some x)
    show ?thesis
    proof (cases "startswith x ''ok''")
      case True
      with r Some Cons.prems(1) have "ok = True" "reply = x" "w' = w2" by auto
      with t Some True show ?thesis
        using exchange_single_ok [of "Suc (length (b # rest))" x "with_newline g" j] by auto
    next
      case False
      let ?w3 = "if a < n then sleep 200 w2 else w2"
      let ?sl = "if a < n then [Sleep 200] else []"
      from r Some False Cons.prems(1) have
        "send_gcode_loop g n (b # rest) (Bound (Some x)) ?w3 = (Inr (ok, reply), w')" by simp
      from Cons.IH [OF this la] obtain es where
        es: "trace w' = trace ?w3 @ es" "exchange (with_newline g) (Suc (length rest)) ok reply es"
        by blast
      have "exchange (with_newline g) (Suc (Suc (length rest))) ok reply
              (attempt (with_newline g) j (Got x) @ ?sl @ es)"
        by (rule exchange_cons [OF _ _ _ es(2)]) (use False in \<open>auto simp: closing_def\<close>)
      moreover have "trace ?w3 = trace w2 @ ?sl" by simp
      ultimately show ?thesis using es(1) t Some by auto
    qed
  qed
qed

lemma upto_from_1:
  assumes "(1::int) \<le> n"
  shows "[1..n] = 1 # [2..n]" "last (1 # [2..n]) = n" "Suc (length [2..n]) = nat n"
proof -
  show a: "[1..n] = 1 # [2..n]" using assms by (simp add: upto_rec1)
  have "last [1..n] = n" using assms by (simp add: upto_rec2)
  with a show "last (1 # [2..n]) = n" by (simp only: )
  show "Suc (length [2..n]) = nat n" using assms by simp
qed

text \<open>
  C5, amended. When \<^verbatim>\<open>send_gcode\<close> of home.py and sender.py returns, it has written
  the command between one and \<open>retries\<close> times and nothing else (no unlock, no reset, no
  flush of the input); it reports success exactly when one of the replies it took from
  the queue starts with ok, and that reply is then the last thing it did; on failure it
  has used all \<open>retries\<close> attempts and returns the outcome of the last one: the last
  reply, or \<open>timeout\<close> when the last attempt saw its deadline pass.
\<close>

theorem send_gcode_outcome:
  assumes "send_gcode gcode retries w = (Inr (ok, reply), w')"
  shows "\<exists>es. trace w' = trace w @ es
     \<and> writes es = replicate (length (writes es)) (with_newline gcode)
     \<and> 1 \<le> length (writes es) \<and> int (length (writes es)) \<le> retries
     \<and> ResetInput \<notin> set es
     \<and> (ok \<longleftrightarrow> (\<exists>a. Got a \<in> set es \<and> startswith a ''ok''))
     \<and> (ok \<longrightarrow> last es = Got reply)
     \<and> (\<not> ok \<longrightarrow> int (length (writes es)) = retries
           \<and> ((last es = Expired \<and> reply = ''timeout'')
              \<or> (\<exists>a. last es = Got a \<and> reply = (if a \<noteq> [] then a else ''timeout''))))"
proof -
  have r1: "1 \<le> retries"
  proof (rule ccontr)
    assume "\<not> 1 \<le> retries"
    then have "send_gcode gcode retries w = (Inl UnboundLocalError, w)"
      by (simp add: send_gcode_def)
    with assms show False by simp
  qed
  note u = upto_from_1 [OF r1]
  from assms u(1) have "send_gcode_loop gcode retries (1 # [2..retries]) Unbound w = (Inr (ok, reply), w')"
    by (simp add: send_gcode_def)
  from send_gcode_loop_exchange [OF this] u(2) obtain es where
    es: "trace w' = trace w @ es" "exchange (with_newline gcode) (Suc (length [2..retries])) ok reply es"
    by auto
  from es(2) have e:
    "writes es = replicate (length (writes es)) (with_newline gcode)"
    "1 \<le> length (writes es)" "length (writes es) \<le> Suc (length [2..retries])"
    "ResetInput \<notin> set es"
    "ok \<longleftrightarrow> (\<exists>a. Got a \<in> set es \<and> startswith a ''ok'')"
    "ok \<longrightarrow> last es = Got reply"
    "\<not> ok \<longrightarrow> length (writes es) = Suc (length [2..retries])"
    "\<not> ok \<longrightarrow> ((last es = Expired \<and> reply = ''timeout'')
              \<or> (\<exists>a. last es = Got a \<and> reply = (if a \<noteq> [] then a else ''timeout'')))"
    unfolding exchange_def by blast+
  from e(3) u(3) r1 have le: "int (length (writes es)) \<le> retries" by linarith
  from e(7) u(3) r1 have eq: "\<not> ok \<longrightarrow> int (length (writes es)) = retries" by auto
  note all = e(1) e(2) le e(4) e(5) e(6) eq e(8)
  from es(1) all show ?thesis by blast
qed

text \<open>
  C5, as stated, fails for \<^verbatim>\<open>send_blocking\<close> of sending.py. It returns \<open>True\<close> after
  an error reply and no ok, as long as the device is Idle afterwards; and after an alarm
  reply it runs the recovery itself: reset byte, unlock, soft limits off.
\<close>

theorem send_blocking_recovers_cex:
  "fst (send_blocking ''G0 Z180'' 3 False error_reply_world) = True
   \<and> trace (snd (send_blocking ''G0 Z180'' 3 False error_reply_world))
       = [Saw ''Unknown'', Write (''G0 Z180'' @ [CHR 0x0D, CHR 0x0A]), Got ''error:20'',
          Write (''?'' @ [CHR 0x0D, CHR 0x0A]), Sleep 250, Saw ''Idle'', Saw ''Idle'']
   \<and> fst (send_blocking ''G0 Z180'' 1 False alarm_reply_world) = False
   \<and> take 4 (writes (trace (snd (send_blocking ''G0 Z180'' 1 False alarm_reply_world))))
       = [''G0 Z180'' @ [CHR 0x0D, CHR 0x0A], [CHR 0x18], ''$X'' @ [CHR 0x0D, CHR 0x0A],
          ''$20=0'' @ [CHR 0x0D, CHR 0x0A]]"
  by code_simp

theorem send_gcode_outcome_witness:
  "send_gcode ''G0 X1'' 2 retry_world = (Inr (True, ''ok''), snd (send_gcode ''G0 X1'' 2 retry_world))
   \<and> (\<exists>es. trace (snd (send_gcode ''G0 X1'' 2 retry_world)) = trace retry_world @ es
          \<and> writes es = replicate (length (writes es)) (with_newline ''G0 X1'')
          \<and> 1 \<le> length (writes es) \<and> int (length (writes es)) \<le> 2
          \<and> ResetInput \<notin> set es
          \<and> (\<exists>a. Got a \<in> set es \<and> startswith a ''ok'')
          \<and> last es = Got ''ok'')"
proof -
  have f: "fst (send_gcode ''G0 X1'' 2 retry_world) = Inr (True, ''ok'')" by code_simp
  then have h: "send_gcode ''G0 X1'' 2 retry_world
                 = (Inr (True, ''ok''), snd (send_gcode ''G0 X1'' 2 retry_world))"
    by (simp add: prod_eq_iff)
  from send_gcode_outcome [OF h] h show ?thesis by blast
qed

subsection \<open>The sender loop on plain commands\<close>

lemma stop_emit [simp]: "stop (emit e w) = stop w"
  by (simp add: emit_def)

lemma stop_rx_line [simp]: "stop (rx_line w l) = stop w"
  by (simp add: rx_line_def Let_def rxq_put_def say_def track_state_def)

lemma stop_rx_loop [simp]: "stop (rx_loop ls w) = stop w"
  by (induction ls arbitrary: w) simp_all

lemma stop_receive [simp]: "stop (receive w) = stop w"
  by (simp add: receive_def split: list.splits)

lemma stop_sleep [simp]: "stop (sleep ms w) = stop w"
  by (simp add: sleep_def)

lemma stop_send_line [simp]: "stop (send_line s w) = stop w"
  by (simp add: send_line_def ser_write_def)

lemma stop_before_deadline [simp]: "stop (snd (before_deadline w)) = stop w"
  by (simp add: before_deadline_def split: list.splits)

lemma stop_rxq_get [simp]: "stop (snd (rxq_get w)) = stop w"
  by (simp add: rxq_get_def rxq_take_def split: list.splits)

lemma stop_wait_ack [simp]: "stop (snd (wait_ack w)) = stop w"
proof (induction w rule: wait_ack.induct)
  case (1 w)
  obtain b w1 where b: "before_deadline w = (b, w1)" by (cases "before_deadline w")
  obtain g w2 where g: "rxq_get w1 = (g, w2)" by (cases "rxq_get w1")
  have s1: "stop w1 = stop w" using stop_before_deadline [of w] b by simp
  have s2: "stop w2 = stop w1" using stop_rxq_get [of w1] g by simp
  show ?case
  proof (cases "b \<and> g = None")
    case True
    with "1.IH" [of b w1 g w2] b g have "stop (snd (wait_ack w2)) = stop w2" by simp
    with True b g s1 s2 show ?thesis by (simp add: wait_ack.simps [of w])
  next
    case False
    with b g s1 s2 show ?thesis
      by (cases b; cases g) (auto simp: wait_ack.simps [of w])
  qed
qed

lemma stop_send_gcode_loop [simp]: "stop (snd (send_gcode_loop g n as ack w)) = stop w"
proof (induction as arbitrary: ack w)
  case Nil
  then show ?case by (cases ack) (auto split: option.splits)
next
  case (Cons a as)
  obtain r w2 where r: "wait_ack (send_line g w) = (r, w2)"
    by (cases "wait_ack (send_line g w)")
  have s: "stop w2 = stop w" using stop_wait_ack [of "send_line g w"] r by simp
  show ?case
  proof (cases r)
    case None
    with r s Cons.IH [of "Bound None" w2] show ?thesis by simp
  next
    case (Some x)
    with r s Cons.IH [of "Bound (Some x)" w2] Cons.IH [of "Bound (Some x)" "sleep 200 w2"]
    show ?thesis by simp
  qed
qed

lemma send_gcode_returns:
  assumes "1 \<le> n"
  obtains ok reply w' where "send_gcode g n w = (Inr (ok, reply), w')"
proof -
  from assms have "[1..n] = 1 # [2..n]" by (simp add: upto_rec1)
  with send_gcode_loop_cons [of g n 1 "[2..n]" Unbound w]
  obtain r where "fst (send_gcode g n w) = Inr r" by (auto simp: send_gcode_def)
  then have "send_gcode g n w = (Inr (fst r, snd r), snd (send_gcode g n w))"
    by (simp add: prod_eq_iff)
  then show ?thesis by (rule that)
qed

lemma send_gcode_exchange:
  assumes "send_gcode g n w = (Inr (ok, reply), w')"
  shows "\<exists>es. trace w' = trace w @ es \<and> exchange (with_newline g) (nat n) ok reply es"
proof -
  have r1: "1 \<le> n"
  proof (rule ccontr)
    assume "\<not> 1 \<le> n"
    then have "send_gcode g n w = (Inl UnboundLocalError, w)" by (simp add: send_gcode_def)
    with assms show False by simp
  qed
  note u = upto_from_1 [OF r1]
  from assms u(1) have "send_gcode_loop g n (1 # [2..n]) Unbound w = (Inr (ok, reply), w')"
    by (simp add: send_gcode_def)
  from send_gcode_loop_exchange [OF this] u(2) u(3) show ?thesis by auto
qed

lemma exchange_served:
  assumes "exchange (with_newline c) (nat lr) ok reply b" "1 \<le> lr"
  shows "served lr c b"
proof -
  from assms(1) have e:
    "writes b = replicate (length (writes b)) (with_newline c)"
    "1 \<le> length (writes b)" "length (writes b) \<le> nat lr"
    "flight False b = Some False"
    "ok \<longrightarrow> last b = Got reply" "ok \<longrightarrow> startswith reply ''ok''"
    "\<not> ok \<longrightarrow> length (writes b) = nat lr"
    "\<forall>x. Got x \<in> set (butlast b) \<longrightarrow> \<not> startswith x ''ok''"
    unfolding exchange_def by blast+
  from e(3) assms(2) have le: "int (length (writes b)) \<le> lr" by linarith
  from e(7) assms(2) have eq: "\<not> ok \<longrightarrow> int (length (writes b)) = lr" by auto
  from e(5,6) eq have fin: "(\<exists>a. last b = Got a \<and> startswith a ''ok'')
           \<or> int (length (writes b)) = lr" by blast
  show ?thesis unfolding served_def using e(1,2,4,8) le fin by blast
qed

lemma flight_concat:
  "list_all (\<lambda>b. flight False b = Some False) bs \<Longrightarrow> flight False (concat bs) = Some False"
  by (induction bs) (simp_all add: flight_append)

lemma sender_loop_served:
  assumes "1 \<le> lr" "list_all plain_item q" "\<not> stop w"
  shows "\<exists>w' bs. sender_loop hr lr (q @ [Some EOF_SENTINEL]) w = (Returned, w')
           \<and> trace w' = trace w @ concat bs
           \<and> list_all2 (served lr) (commands q) bs"
  using assms(2,3)
proof (induction q arbitrary: w)
  case Nil
  show ?case by (rule exI [of _ w], rule exI [of _ "[]"]) simp
next
  case (Cons i q)
  from Cons.prems(1) have pq: "list_all plain_item q" and pi: "plain_item i" by simp_all
  show ?case
  proof (cases i)
    case None
    have "\<not> stop (receive w)" using Cons.prems(2) by simp
    from Cons.IH [OF pq this] obtain w' bs where
      h: "sender_loop hr lr (q @ [Some EOF_SENTINEL]) (receive w) = (Returned, w')"
        "trace w' = trace (receive w) @ concat bs" "list_all2 (served lr) (commands q) bs"
      by blast
    show ?thesis
      apply (rule exI [of _ w'], rule exI [of _ bs])
      using h None Cons.prems(2) by (simp add: Let_def)
  next
    case (Some it)
    with pi obtain c where c: "it = Gcode c"
      by (cases it) (auto simp: plain_item_def)
    from send_gcode_returns [OF assms(1), of c w] obtain ok reply w1 where
      g: "send_gcode c lr w = (Inr (ok, reply), w1)" by blast
    from send_gcode_exchange [OF g] obtain b where
      e1: "trace w1 = trace w @ b" "exchange (with_newline c) (nat lr) ok reply b" by blast
    have sv: "served lr c b" using exchange_served [OF e1(2) assms(1)] .
    have "stop (snd (send_gcode c lr w)) = stop w" by (simp add: send_gcode_def)
    with g Cons.prems(2) have s1: "\<not> stop w1" by simp
    from Cons.IH [OF pq s1] obtain w' bs where
      h: "sender_loop hr lr (q @ [Some EOF_SENTINEL]) w1 = (Returned, w')"
        "trace w' = trace w1 @ concat bs" "list_all2 (served lr) (commands q) bs"
      by blast
    show ?thesis
      apply (rule exI [of _ w'], rule exI [of _ "b # bs"])
      using h e1(1) g Some c sv by simp
  qed
qed

lemma served_flight: "list_all2 (served lr) cs bs \<Longrightarrow> flight False (concat bs) = Some False"
proof (rule flight_concat)
  assume "list_all2 (served lr) cs bs"
  then show "list_all (\<lambda>b. flight False b = Some False) bs"
    by (induction rule: list_all2_induct) (simp_all add: served_def)
qed

text \<open>
  C1, amended. Take a work queue of plain commands, with any number of empty polls in
  between, closed by the end-of-input sentinel; let \<open>line_retries \<ge> 1\<close> and the stop event
  be clear. Whatever the device replies and whichever deadlines pass, the sender loop
  returns, and its trace is one block per command, in the order the commands were
  enqueued. In its block a command is the only thing written, between one and
  \<open>line_retries\<close> times; every write comes after the previous one was closed by a reply
  taken from the queue or by the deadline of that attempt; and the block ends, and the
  next command is written, only after an ok reply was taken or the budget was used up.
\<close>

theorem sender_loop_serves_in_order:
  assumes "1 \<le> line_retries" "list_all plain_item q" "\<not> stop w"
  shows "\<exists>w' bs.
           sender_loop homing_retries line_retries (q @ [Some EOF_SENTINEL]) w = (Returned, w')
           \<and> trace w' = trace w @ concat bs
           \<and> list_all2 (served line_retries) (commands q) bs
           \<and> one_in_flight (concat bs)"
proof -
  from sender_loop_served [OF assms, of homing_retries] obtain w' bs where
    h: "sender_loop homing_retries line_retries (q @ [Some EOF_SENTINEL]) w = (Returned, w')"
       "trace w' = trace w @ concat bs" "list_all2 (served line_retries) (commands q) bs"
    by blast
  from served_flight [OF h(3)] have "one_in_flight (concat bs)" by (simp add: one_in_flight_def)
  with h show ?thesis by blast
qed


text \<open>
  C1, as stated, fails when the queue holds a Home item. home.py counts a state other
  than Idle as the start of a homing command, without a reply: here the device reports
  Run and then Idle, the macro goes on and writes \<^verbatim>\<open>g0 z180\<close> while \<^verbatim>\<open>$HZ\<close> is pending, and
  the ok that answers \<^verbatim>\<open>$HZ\<close> is taken as the reply to \<^verbatim>\<open>g0 z180\<close>. It also fails for
  \<open>line_retries = 0\<close>, where the first command raises and nothing is written.
\<close>

theorem sender_loop_home_overlaps_cex:
  "exchanges (trace (snd (sender_loop 5 1 [Some Home, Some EOF_SENTINEL] moving_world)))
     = [Write (''$HZ'' @ [nl]), Write (''g0 z180'' @ [nl]), Got ''ok'', Expired, Expired]
   \<and> \<not> one_in_flight (trace (snd (sender_loop 5 1 [Some Home, Some EOF_SENTINEL] moving_world)))
   \<and> sender_loop 5 0 [Some (Gcode ''G0 X1''), Some EOF_SENTINEL] ok_world
       = (Raised UnboundLocalError, ok_world)"
proof -
  have a: "exchanges (trace (snd (sender_loop 5 1 [Some Home, Some EOF_SENTINEL] moving_world)))
     = [Write (''$HZ'' @ [nl]), Write (''g0 z180'' @ [nl]), Got ''ok'', Expired, Expired]"
    by code_simp
  have b: "\<not> one_in_flight (trace (snd (sender_loop 5 1 [Some Home, Some EOF_SENTINEL] moving_world)))"
    by code_simp
  have c: "sender_loop 5 0 [Some (Gcode ''G0 X1''), Some EOF_SENTINEL] ok_world
       = (Raised UnboundLocalError, ok_world)"
    by (simp add: send_gcode_def)
  from a b c show ?thesis by blast
qed

theorem sender_loop_serves_in_order_witness:
  "list_all plain_item two_commands \<and> \<not> stop ok_world
   \<and> (\<exists>w' bs.
          sender_loop 5 1 (two_commands @ [Some EOF_SENTINEL]) ok_world = (Returned, w')
          \<and> trace w' = trace ok_world @ concat bs
          \<and> list_all2 (served 1) (commands two_commands) bs
          \<and> one_in_flight (concat bs))
   \<and> trace (snd (sender_loop 5 1 (two_commands @ [Some EOF_SENTINEL]) ok_world))
       = [Write (''G0 X1'' @ [nl]), Got ''ok'', Write (''G0 X2'' @ [nl]), Got ''ok'']
   \<and> trace (snd (sender_loop 5 2 [Some (Gcode ''G0 X1''), Some EOF_SENTINEL] retry_world))
       = [Write (''G0 X1'' @ [nl]), Empty, Got ''error:2'', Sleep 200,
          Write (''G0 X1'' @ [nl]), Got ''ok'']"
proof -
  have a: "list_all plain_item two_commands" by code_simp
  have b: "\<not> stop ok_world" by code_simp
  have c: "trace (snd (sender_loop 5 1 (two_commands @ [Some EOF_SENTINEL]) ok_world))
       = [Write (''G0 X1'' @ [nl]), Got ''ok'', Write (''G0 X2'' @ [nl]), Got ''ok'']"
    by code_simp
  have d: "trace (snd (sender_loop 5 2 [Some (Gcode ''G0 X1''), Some EOF_SENTINEL] retry_world))
       = [Write (''G0 X1'' @ [nl]), Empty, Got ''error:2'', Sleep 200,
          Write (''G0 X1'' @ [nl]), Got ''ok'']"
    by code_simp
  from sender_loop_serves_in_order [of 1 two_commands ok_world 5] a b c d show ?thesis by simp
qed

subsection \<open>The Receiver on a full queue\<close>

lemma last_state_track_cong:
  "last_state w = last_state w' \<Longrightarrow> last_state (track_state l w) = last_state (track_state l w')"
  by (simp add: track_state_def Let_def)

lemma last_state_tracked_cong:
  "last_state w = last_state w' \<Longrightarrow> last_state (tracked ls w) = last_state (tracked ls w')"
proof (induction ls arbitrary: w w')
  case Nil
  then show ?case by (simp add: tracked_def)
next
  case (Cons l ls)
  have "last_state (track_state l w) = last_state (track_state l w')"
    using Cons.prems by (rule last_state_track_cong)
  from Cons.IH [OF this] show ?case by (simp add: tracked_def)
qed

lemma last_state_rx_line: "last_state (rx_line w l) = last_state (track_state l w)"
  by (simp add: rx_line_def Let_def rxq_put_def say_def)

lemma rx_line_ack_room:
  "is_ack (lower l) \<Longrightarrow> 0 < room w \<Longrightarrow>
   rxq (rx_line w l) = rxq w @ [lower l] \<and> out (rx_line w l) = out w
   \<and> rx_log (rx_line w l) = rx_log w \<and> room (rx_line w l) = room w - 1"
  by (auto simp: rx_line_def Let_def rxq_put_def say_def room_def track_state_def)

lemma rx_line_ack_full:
  "is_ack (lower l) \<Longrightarrow> room w = 0 \<Longrightarrow>
   rxq (rx_line w l) = rxq w
   \<and> out (rx_line w l) = out w @ [''[WARN] RX queue full; dropping ack'']
   \<and> rx_log (rx_line w l) = rx_log w @ [PutTimedOut 100 (lower l)] \<and> room (rx_line w l) = 0"
  by (auto simp: rx_line_def Let_def rxq_put_def say_def room_def track_state_def)

lemma rx_line_other:
  "\<not> is_ack (lower l) \<Longrightarrow>
   rxq (rx_line w l) = rxq w \<and> out (rx_line w l) = out w
   \<and> rx_log (rx_line w l) = rx_log w \<and> room (rx_line w l) = room w"
  by (auto simp: rx_line_def Let_def room_def track_state_def)

lemma rx_loop_result:
  assumes "\<not> stop w"
  shows "rxq (rx_loop ls w) = rxq w @ take (room w) (acks_of ls)
       \<and> out (rx_loop ls w)
           = out w @ replicate (length (acks_of ls) - room w) ''[WARN] RX queue full; dropping ack''
       \<and> rx_log (rx_loop ls w) = rx_log w @ map (PutTimedOut 100) (drop (room w) (acks_of ls))
       \<and> last_state (rx_loop ls w) = last_state (tracked ls w)"
  using assms
proof (induction ls arbitrary: w)
  case Nil
  then show ?case by (simp add: acks_of_def tracked_def)
next
  case (Cons l ls)
  let ?w1 = "rx_line w l"
  have s1: "\<not> stop ?w1" using Cons.prems by simp
  note ih = Cons.IH [OF s1]
  have step: "rx_loop (l # ls) w = rx_loop ls ?w1" using Cons.prems by simp
  have ls: "last_state (tracked ls ?w1) = last_state (tracked (l # ls) w)"
    using last_state_tracked_cong [of ?w1 "track_state l w" ls] last_state_rx_line [of w l]
    by (simp add: tracked_def)
  show ?case
  proof (cases "is_ack (lower l)")
    case False
    then have a: "acks_of (l # ls) = acks_of ls" by (simp add: acks_of_def)
    show ?thesis unfolding step a using ih rx_line_other [OF False, of w] ls by simp
  next
    case True
    then have a: "acks_of (l # ls) = lower l # acks_of ls" by (simp add: acks_of_def)
    show ?thesis
    proof (cases "room w")
      case 0
      show ?thesis unfolding step a using ih rx_line_ack_full [OF True 0] ls 0
        by (simp add: replicate_append_same)
    next
      case (Suc n)
      then have "0 < room w" by simp
      from rx_line_ack_room [OF True this] show ?thesis unfolding step a using ih ls Suc
        by simp
    qed
  qed
qed


lemma rx_loop_stopped: "stop w \<Longrightarrow> rx_loop ls w = w"
  by (cases ls) simp_all

lemma rx_loop_sending_blocked:
  "blocked_put w \<noteq> None \<Longrightarrow> rx_loop_sending ls w = w\<lparr>unread := unread w @ ls\<rparr>"
  by (cases ls) simp_all

lemma rx_line_sending_empty: "rx_line_sending w [] = w"
  by (simp add: rx_line_sending_def)

lemma rx_line_sending_room:
  "l \<noteq> [] \<Longrightarrow> 0 < room w \<Longrightarrow>
   rxq (rx_line_sending w l) = rxq w @ [l] \<and> blocked_put (rx_line_sending w l) = blocked_put w
   \<and> unread (rx_line_sending w l) = unread w \<and> out (rx_line_sending w l) = out w
   \<and> rx_log (rx_line_sending w l) = rx_log w \<and> room (rx_line_sending w l) = room w - 1"
  by (auto simp: rx_line_sending_def rxq_put_blocking_def room_def track_state_sending_def)

lemma rx_line_sending_full:
  "l \<noteq> [] \<Longrightarrow> room w = 0 \<Longrightarrow>
   rxq (rx_line_sending w l) = rxq w \<and> blocked_put (rx_line_sending w l) = Some l
   \<and> unread (rx_line_sending w l) = unread w \<and> out (rx_line_sending w l) = out w
   \<and> rx_log (rx_line_sending w l) = rx_log w @ [PutBlocked l]"
  by (auto simp: rx_line_sending_def rxq_put_blocking_def room_def track_state_sending_def)

lemma rx_loop_sending_result:
  assumes "blocked_put w = None" "unread w = []"
  shows "rxq (rx_loop_sending ls w) = rxq w @ take (room w) (nonempty ls)
       \<and> blocked_put (rx_loop_sending ls w)
           = (if room w < length (nonempty ls) then Some (nonempty ls ! room w) else None)
       \<and> rx_log (rx_loop_sending ls w)
           = rx_log w @ (if room w < length (nonempty ls)
                         then [PutBlocked (nonempty ls ! room w)] else [])
       \<and> out (rx_loop_sending ls w) = out w
       \<and> waiting (rx_loop_sending ls w) = waiting w @ nonempty ls"
  using assms
proof (induction ls arbitrary: w)
  case Nil
  then show ?case by (simp add: nonempty_def)
next
  case (Cons l ls)
  have step: "rx_loop_sending (l # ls) w = rx_loop_sending ls (rx_line_sending w l)"
    using Cons.prems(1) by simp
  show ?case
  proof (cases "l = []")
    case True
    then have n: "nonempty (l # ls) = nonempty ls" by (simp add: nonempty_def)
    show ?thesis unfolding step n using Cons.IH [OF Cons.prems] True
      by (simp add: rx_line_sending_empty)
  next
    case False
    then have n: "nonempty (l # ls) = l # nonempty ls" by (simp add: nonempty_def)
    let ?w1 = "rx_line_sending w l"
    show ?thesis
    proof (cases "room w")
      case 0
      note f = rx_line_sending_full [OF False 0]
      have b: "blocked_put ?w1 \<noteq> None" using f by simp
      have r: "rx_loop_sending ls ?w1 = ?w1\<lparr>unread := unread ?w1 @ ls\<rparr>"
        using b by (rule rx_loop_sending_blocked)
      show ?thesis unfolding step n r using f 0 Cons.prems
        by (simp add: waiting_def nonempty_def)
    next
      case (Suc k)
      then have p: "0 < room w" by simp
      note f = rx_line_sending_room [OF False p]
      have b: "blocked_put ?w1 = None" "unread ?w1 = []" using f Cons.prems by simp_all
      have wt: "waiting ?w1 = waiting w @ [l]"
        using f Cons.prems by (simp add: waiting_def nonempty_def)
      show ?thesis unfolding step n using Cons.IH [OF b] f Suc wt by simp
    qed
  qed
qed

lemma nonempty_simps [simp]:
  "nonempty [] = []" "nonempty (xs @ ys) = nonempty xs @ nonempty ys"
  by (simp_all add: nonempty_def)

lemma waiting_resume_put: "waiting (resume_put w) = waiting w"
  by (simp add: resume_put_def waiting_def split: option.splits)

lemma receive_sending_keeps_all:
  assumes "blocked_put w = None \<longrightarrow> unread w = []"
  shows "waiting (receive_sending w)
         = waiting w @ nonempty (case feed w of [] \<Rightarrow> [] | ls # rest \<Rightarrow> ls)"
proof -
  let ?arrived = "case feed w of [] \<Rightarrow> [] | ls # rest \<Rightarrow> ls"
  let ?w0 = "w\<lparr>feed := tl (feed w)\<rparr>"
  let ?w1 = "resume_put ?w0"
  have rs: "receive_sending w = rx_loop_sending (unread ?w1 @ ?arrived) (?w1\<lparr>unread := []\<rparr>)"
    by (simp add: receive_sending_def Let_def)
  have u1: "unread ?w1 = unread w" by (simp add: resume_put_def split: option.splits)
  have w1: "waiting ?w1 = waiting w" by (simp add: waiting_resume_put) (simp add: waiting_def)
  show ?thesis
  proof (cases "blocked_put ?w1")
    case None
    then have a: "blocked_put (?w1\<lparr>unread := []\<rparr>) = None" "unread (?w1\<lparr>unread := []\<rparr>) = []"
      by simp_all
    have "waiting (?w1\<lparr>unread := []\<rparr>) @ nonempty (unread w) = waiting ?w1"
      using None u1 by (simp add: waiting_def)
    with rx_loop_sending_result [OF a, of "unread ?w1 @ ?arrived"] w1 u1 show ?thesis
      unfolding rs by (simp add: nonempty_def)
  next
    case (Some x)
    then have b: "blocked_put (?w1\<lparr>unread := []\<rparr>) \<noteq> None" by simp
    have "waiting (?w1\<lparr>unread := unread w @ ?arrived\<rparr>) = waiting ?w1 @ nonempty ?arrived"
      using u1 by (simp add: waiting_def nonempty_def)
    with rx_loop_sending_blocked [OF b, of "unread ?w1 @ ?arrived"] w1 u1 show ?thesis
      unfolding rs by simp
  qed
qed


text \<open>
  C6, amended. In home.py and sender.py, while the stop event is clear, the Receiver reads
  every line: the replies among them are queued in order as long as the queue has room;
  each reply that finds the queue full is dropped after the 0.1 s timeout of its put
  (logged as \<open>PutTimedOut 100\<close>) with one warning, and nothing already queued is removed;
  the state is tracked from all the lines, whether or not the queue is full. Once the
  stop event is set nothing is read. In sending.py the put has no timeout: the lines are
  queued in order as long as there is room, the first line that finds the queue full
  blocks the Receiver, which from then on reads nothing (the later lines stay unread), and
  nothing is dropped and no warning is printed: the queue, the blocked line and the
  unread lines always hold exactly what was received, in order.
\<close>

theorem receiver_on_full_queue:
  "(\<not> stop w \<longrightarrow>
      rxq (rx_loop ls w) = rxq w @ take (room w) (acks_of ls)
      \<and> out (rx_loop ls w)
          = out w @ replicate (length (acks_of ls) - room w) ''[WARN] RX queue full; dropping ack''
      \<and> rx_log (rx_loop ls w) = rx_log w @ map (PutTimedOut 100) (drop (room w) (acks_of ls))
      \<and> last_state (rx_loop ls w) = last_state (tracked ls w))
   \<and> (stop w \<longrightarrow> rx_loop ls w = w)
   \<and> (blocked_put w = None \<and> unread w = [] \<longrightarrow>
      rxq (rx_loop_sending ls w) = rxq w @ take (room w) (nonempty ls)
      \<and> blocked_put (rx_loop_sending ls w)
          = (if room w < length (nonempty ls) then Some (nonempty ls ! room w) else None)
      \<and> rx_log (rx_loop_sending ls w)
          = rx_log w @ (if room w < length (nonempty ls)
                        then [PutBlocked (nonempty ls ! room w)] else [])
      \<and> out (rx_loop_sending ls w) = out w
      \<and> waiting (rx_loop_sending ls w) = waiting w @ nonempty ls)
   \<and> (blocked_put w \<noteq> None \<longrightarrow> rx_loop_sending ls w = w\<lparr>unread := unread w @ ls\<rparr>)
   \<and> ((blocked_put w = None \<longrightarrow> unread w = []) \<longrightarrow>
      waiting (receive_sending w)
        = waiting w @ nonempty (case feed w of [] \<Rightarrow> [] | ls # rest \<Rightarrow> ls))"
  using rx_loop_result [of w ls] rx_loop_stopped [of w ls] rx_loop_sending_result [of w ls]
    rx_loop_sending_blocked [of w ls] receive_sending_keeps_all [of w]
  by blast

text \<open>
  C6, as stated, fails on a full queue. In home.py the reply dropped is the incoming one:
  the oldest reply stays at the head of the queue and the new one never enters it. In
  sending.py nothing is dropped and the Receiver does block: the put of the first line
  does not return, and the status report behind it is not read.
\<close>

theorem receiver_full_queue_cex:
  "rxq (rx_line full_rxq_world ''ALARM:2'') = ''error:1'' # replicate 8191 ''ok''
   \<and> ''alarm:2'' \<notin> set (rxq (rx_line full_rxq_world ''ALARM:2''))
   \<and> out (rx_line full_rxq_world ''ALARM:2'') = [''[WARN] RX queue full; dropping ack'']
   \<and> rx_log (rx_line full_rxq_world ''ALARM:2'') = [PutTimedOut 100 ''alarm:2'']
   \<and> rxq (rx_loop_sending [''ok'', ''<Run>''] full_rxq_world) = ''error:1'' # replicate 8191 ''ok''
   \<and> blocked_put (rx_loop_sending [''ok'', ''<Run>''] full_rxq_world) = Some ''ok''
   \<and> unread (rx_loop_sending [''ok'', ''<Run>''] full_rxq_world) = [''<Run>'']
   \<and> last_state (rx_loop_sending [''ok'', ''<Run>''] full_rxq_world) = ''Unknown''
   \<and> out (rx_loop_sending [''ok'', ''<Run>''] full_rxq_world) = []"
proof -
  have l: "lower ''ALARM:2'' = ''alarm:2''" by code_simp
  have h: "rxq (rx_line full_rxq_world ''ALARM:2'') = ''error:1'' # replicate 8191 ''ok''
   \<and> ''alarm:2'' \<notin> set (rxq (rx_line full_rxq_world ''ALARM:2''))
   \<and> out (rx_line full_rxq_world ''ALARM:2'') = [''[WARN] RX queue full; dropping ack'']
   \<and> rx_log (rx_line full_rxq_world ''ALARM:2'') = [PutTimedOut 100 ''alarm:2'']"
    by (simp add: rx_line_def Let_def l track_state_def startswith_def is_ack_def
        rxq_put_def RXQ_MAXSIZE_def full_rxq_world_def initial_world_def say_def)
  have s: "rxq (rx_loop_sending [''ok'', ''<Run>''] full_rxq_world) = ''error:1'' # replicate 8191 ''ok''
   \<and> blocked_put (rx_loop_sending [''ok'', ''<Run>''] full_rxq_world) = Some ''ok''
   \<and> unread (rx_loop_sending [''ok'', ''<Run>''] full_rxq_world) = [''<Run>'']
   \<and> last_state (rx_loop_sending [''ok'', ''<Run>''] full_rxq_world) = ''Unknown''
   \<and> out (rx_loop_sending [''ok'', ''<Run>''] full_rxq_world) = []"
    by (simp add: rx_line_sending_def rxq_put_blocking_def track_state_sending_def
        startswith_def RXQ_MAXSIZE_def full_rxq_world_def initial_world_def)
  from h s show ?thesis by blast
qed

theorem receiver_on_full_queue_witness:
  "\<not> stop full_rxq_world \<and> blocked_put full_rxq_world = None \<and> unread full_rxq_world = []
   \<and> room full_rxq_world = 0
   \<and> acks_of [''ALARM:2'', ''<Run>'', ''ok''] = [''alarm:2'', ''ok'']
   \<and> rxq (rx_loop [''ALARM:2'', ''<Run>'', ''ok''] full_rxq_world) = rxq full_rxq_world
   \<and> out (rx_loop [''ALARM:2'', ''<Run>'', ''ok''] full_rxq_world)
       = [''[WARN] RX queue full; dropping ack'', ''[WARN] RX queue full; dropping ack'']
   \<and> rx_log (rx_loop [''ALARM:2'', ''<Run>'', ''ok''] full_rxq_world)
       = [PutTimedOut 100 ''alarm:2'', PutTimedOut 100 ''ok'']
   \<and> last_state (rx_loop [''ALARM:2'', ''<Run>'', ''ok''] full_rxq_world) = ''Run''
   \<and> waiting (rx_loop_sending [''ok'', ''<Run>''] full_rxq_world)
       = rxq full_rxq_world @ [''ok'', ''<Run>'']"
proof -
  let ?ls = "[''ALARM:2'', ''<Run>'', ''ok'']"
  have a: "\<not> stop full_rxq_world" "blocked_put full_rxq_world = None" "unread full_rxq_world = []"
    "out full_rxq_world = []" "rx_log full_rxq_world = []"
    by (simp_all add: full_rxq_world_def initial_world_def)
  have r: "room full_rxq_world = 0"
    by (simp add: room_def RXQ_MAXSIZE_def full_rxq_world_def)
  have k: "acks_of ?ls = [''alarm:2'', ''ok'']" by code_simp
  have "last_state full_rxq_world = last_state (initial_world [] [])"
    by (simp add: full_rxq_world_def)
  then have "last_state (tracked ?ls full_rxq_world) = last_state (tracked ?ls (initial_world [] []))"
    by (rule last_state_tracked_cong)
  moreover have "last_state (tracked ?ls (initial_world [] [])) = ''Run''" by code_simp
  ultimately have t: "last_state (tracked ?ls full_rxq_world) = ''Run''" by simp
  have n: "nonempty [''ok'', ''<Run>''] = [''ok'', ''<Run>'']" by (simp add: nonempty_def)
  have w: "waiting full_rxq_world = rxq full_rxq_world" using a by (simp add: waiting_def)
  note th = receiver_on_full_queue [of full_rxq_world ?ls]
  note ts = receiver_on_full_queue [of full_rxq_world "[''ok'', ''<Run>'']"]
  from th a r k t have h: "rxq (rx_loop ?ls full_rxq_world) = rxq full_rxq_world
     \<and> out (rx_loop ?ls full_rxq_world)
       = [''[WARN] RX queue full; dropping ack'', ''[WARN] RX queue full; dropping ack'']
     \<and> rx_log (rx_loop ?ls full_rxq_world) = [PutTimedOut 100 ''alarm:2'', PutTimedOut 100 ''ok'']
     \<and> last_state (rx_loop ?ls full_rxq_world) = ''Run''"
    by (simp add: numeral_2_eq_2)
  from ts a n w have s: "waiting (rx_loop_sending [''ok'', ''<Run>''] full_rxq_world)
       = rxq full_rxq_world @ [''ok'', ''<Run>'']" by simp
  from a r k h s show ?thesis by blast
qed

subsection \<open>The homing macro\<close>

lemma run_steps_append:
  "run_steps n (pre @ post) w =
     (case run_steps n pre w of
        (Inr True, w1) \<Rightarrow> run_steps n post w1
      | r \<Rightarrow> r)"
  by (induction pre arbitrary: w) (auto split: prod.splits sum.splits bool.splits)

lemma run_steps_abort:
  assumes "run_steps n pre w = (Inr True, w1)" "run_step n s w1 = (Inr False, w2)"
  shows "run_steps n (pre @ s # post) w = (Inr False, w2)"
  using assms by (simp add: run_steps_append)

lemma send_gcode_1: "\<exists>ok reply. fst (send_gcode g 1 w) = Inr (ok, reply)"
  using send_gcode_loop_cons [of g 1 1 "[]" Unbound w] by (simp add: send_gcode_def)

lemma run_step_no_raise:
  obtains ok w1 where "run_step n s w = (Inr ok, w1)"
proof (cases s)
  case (HomeAxis c)
  then show ?thesis using that by (cases "send_homing_with_retries c n w") simp
next
  case WaitMotion
  then show ?thesis using that by (cases "wait_motion_complete w") simp
next
  case (Move g)
  obtain ok reply w1 where "send_gcode g 1 w = (Inr (ok, reply), w1)"
    by (rule send_gcode_returns [of 1 g w]) simp
  with Move have "run_step n s w = (Inr ok, w1)" by simp
  then show ?thesis by (rule that)
qed

lemma run_steps_no_raise:
  obtains ok w' where "run_steps n ss w = (Inr ok, w')"
proof (induction ss arbitrary: w thesis)
  case Nil
  then show ?case by simp
next
  case (Cons s ss)
  obtain ok w1 where r: "run_step n s w = (Inr ok, w1)" by (rule run_step_no_raise)
  show ?case
  proof (cases ok)
    case False
    with r have "run_steps n (s # ss) w = (Inr False, w1)" by simp
    then show ?thesis by (rule Cons.prems)
  next
    case True
    obtain ok' w' where "run_steps n ss w1 = (Inr ok', w')" by (rule Cons.IH)
    with r True have "run_steps n (s # ss) w = (Inr ok', w')" by simp
    then show ?thesis by (rule Cons.prems)
  qed
qed

lemma run_steps_False:
  "run_steps n ss w = (Inr False, w') \<Longrightarrow>
   \<exists>pre s post w1. ss = pre @ s # post \<and> run_steps n pre w = (Inr True, w1)
      \<and> run_step n s w1 = (Inr False, w')"
proof (induction ss arbitrary: w)
  case Nil
  then show ?case by simp
next
  case (Cons s ss)
  obtain ok v where r: "run_step n s w = (Inr ok, v)" by (rule run_step_no_raise)
  show ?case
  proof (cases ok)
    case False
    with r Cons.prems have "run_step n s w = (Inr False, w')" by auto
    then show ?thesis
      by (rule_tac x = "[]" in exI, rule_tac x = s in exI, rule_tac x = ss in exI,
          rule_tac x = w in exI) simp
  next
    case True
    with r Cons.prems have "run_steps n ss v = (Inr False, w')" by auto
    from Cons.IH [OF this] obtain pre t post w1 where
      h: "ss = pre @ t # post" "run_steps n pre v = (Inr True, w1)"
         "run_step n t w1 = (Inr False, w')" by blast
    show ?thesis
      apply (rule exI [of _ "s # pre"], rule exI [of _ t], rule exI [of _ post],
          rule exI [of _ w1])
      using h r True by auto
  qed
qed

lemma run_steps_True:
  "run_steps n (pre @ s # post) w = (Inr True, w') \<Longrightarrow>
   \<exists>w1 w2. run_steps n pre w = (Inr True, w1) \<and> run_step n s w1 = (Inr True, w2)
      \<and> run_steps n post w2 = (Inr True, w')"
  by (auto simp: run_steps_append split: prod.splits sum.splits bool.splits if_splits)

text \<open>
  C4. The macro of home.py is the fixed list: home Z, move to Z 180, home A, home Y, move
  to Y 45, home Z again, home X, move to the pose X45 Y45 Z45 A45, each followed by a wait
  for the motion to complete. It never raises. As soon as a step returns \<open>False\<close> the
  macro returns \<open>False\<close> in the world that step left, so no later step runs; a \<open>False\<close>
  result always comes from such a first failing step; and a \<open>True\<close> result means every
  step ran, in order, and returned \<open>True\<close>.
\<close>

theorem home_sequence_order_and_abort:
  "home_steps = concat (map (\<lambda>s. [s, WaitMotion]) macro_moves)
   \<and> (\<exists>ok w'. perform_home_sequence n w = (Inr ok, w'))
   \<and> (\<forall>pre s post w1 w2.
         home_steps = pre @ s # post \<and> run_steps n pre w = (Inr True, w1)
           \<and> run_step n s w1 = (Inr False, w2)
         \<longrightarrow> perform_home_sequence n w = (Inr False, w2))
   \<and> (\<forall>w'. perform_home_sequence n w = (Inr False, w') \<longrightarrow>
         (\<exists>pre s post w1. home_steps = pre @ s # post \<and> run_steps n pre w = (Inr True, w1)
            \<and> run_step n s w1 = (Inr False, w')))
   \<and> (\<forall>w' pre s post. perform_home_sequence n w = (Inr True, w') \<and> home_steps = pre @ s # post \<longrightarrow>
         (\<exists>w1 w2. run_steps n pre w = (Inr True, w1) \<and> run_step n s w1 = (Inr True, w2)
            \<and> run_steps n post w2 = (Inr True, w')))"
proof (intro conjI allI impI)
  show "home_steps = concat (map (\<lambda>s. [s, WaitMotion]) macro_moves)"
    by (simp add: home_steps_def macro_moves_def)
  obtain ok w' where "run_steps n home_steps w = (Inr ok, w')" by (rule run_steps_no_raise)
  then show "\<exists>ok w'. perform_home_sequence n w = (Inr ok, w')"
    by (auto simp: perform_home_sequence_def)
next
  fix pre s post w1 w2
  assume "home_steps = pre @ s # post \<and> run_steps n pre w = (Inr True, w1)
           \<and> run_step n s w1 = (Inr False, w2)"
  then show "perform_home_sequence n w = (Inr False, w2)"
    using run_steps_abort [of n pre w w1 s w2 post] by (simp add: perform_home_sequence_def)
next
  fix w'
  assume "perform_home_sequence n w = (Inr False, w')"
  then show "\<exists>pre s post w1. home_steps = pre @ s # post \<and> run_steps n pre w = (Inr True, w1)
            \<and> run_step n s w1 = (Inr False, w')"
    using run_steps_False [of n home_steps w w'] by (simp add: perform_home_sequence_def)
next
  fix w' pre s post
  assume "perform_home_sequence n w = (Inr True, w') \<and> home_steps = pre @ s # post"
  then show "\<exists>w1 w2. run_steps n pre w = (Inr True, w1) \<and> run_step n s w1 = (Inr True, w2)
            \<and> run_steps n post w2 = (Inr True, w')"
    using run_steps_True [of n pre s post w w'] by (simp add: perform_home_sequence_def)
qed

subsection \<open>A failed macro ends the dispatch\<close>

lemma sender_loop_after_prefix:
  "sender_loop hr lr pre w = (Starved, w1) \<Longrightarrow>
   sender_loop hr lr (pre @ rest) w = sender_loop hr lr rest w1"
proof (induction hr lr pre w rule: sender_loop.induct)
  case (1 hr lr w)
  then show ?case by (simp split: if_splits)
next
  case (2 hr lr q w)
  then show ?case by (simp add: Let_def split: if_splits)
next
  case (3 hr lr q w)
  then show ?case by simp
next
  case (4 hr lr q w)
  then show ?case by (simp split: prod.splits sum.splits if_splits)
next
  case (5 hr lr line q w)
  then show ?case by (auto split: prod.splits sum.splits)
next
  case (6 hr lr q w)
  then show ?case by simp
qed

lemma sender_loop_sender_after_prefix:
  "sender_loop_sender hr lr pre w = (Starved, w1) \<Longrightarrow>
   sender_loop_sender hr lr (pre @ rest) w = sender_loop_sender hr lr rest w1"
proof (induction hr lr pre w rule: sender_loop_sender.induct)
  case (1 hr lr w)
  then show ?case by (simp split: if_splits)
next
  case (2 hr lr q w)
  then show ?case by (simp add: Let_def split: if_splits)
next
  case (3 hr lr q w)
  then show ?case by simp
next
  case (4 hr lr q w)
  then show ?case by (simp split: prod.splits sum.splits if_splits)
next
  case (5 hr lr q w)
  then show ?case by simp
next
  case (6 hr lr line q w)
  then show ?case by (auto split: prod.splits sum.splits)
qed

text \<open>
  C8. Let the sender loop have worked through a prefix of the queue without returning, and
  let the macro of the next item, Home, fail. Then the loop returns at once with the stop
  event set, and its trace is the trace at the end of the failed macro: whatever is
  queued behind it (\<open>rest\<close>) is never written. This holds for the loop of home.py and
  for the loop of sender.py.
\<close>

theorem fatal_homing_failure_stops_dispatch:
  "(sender_loop hr lr pre w = (Starved, w1) \<and> perform_home_sequence hr w1 = (Inr False, w2)
      \<longrightarrow> sender_loop hr lr (pre @ Some Home # rest) w = (Returned, w2\<lparr>stop := True\<rparr>)
          \<and> stop (snd (sender_loop hr lr (pre @ Some Home # rest) w))
          \<and> trace (snd (sender_loop hr lr (pre @ Some Home # rest) w)) = trace w2)
   \<and> (sender_loop_sender hr lr pre w = (Starved, w1)
        \<and> perform_home_sequence_sender hr w1 = (Inr False, w2)
      \<longrightarrow> sender_loop_sender hr lr (pre @ Some Home # rest) w = (Returned, w2\<lparr>stop := True\<rparr>)
          \<and> stop (snd (sender_loop_sender hr lr (pre @ Some Home # rest) w))
          \<and> trace (snd (sender_loop_sender hr lr (pre @ Some Home # rest) w)) = trace w2)"
  by (simp add: sender_loop_after_prefix sender_loop_sender_after_prefix)

theorem fatal_homing_failure_stops_dispatch_witness:
  "fst (sender_loop 5 1 [Some (Gcode ''G0 X1'')] abort_world) = Starved
   \<and> fst (perform_home_sequence 5 (snd (sender_loop 5 1 [Some (Gcode ''G0 X1'')] abort_world)))
       = Inr False
   \<and> fst (sender_loop 5 1 ([Some (Gcode ''G0 X1'')] @ Some Home # abort_queue) abort_world)
       = Returned
   \<and> stop (snd (sender_loop 5 1 ([Some (Gcode ''G0 X1'')] @ Some Home # abort_queue) abort_world))
   \<and> trace (snd (sender_loop 5 1 ([Some (Gcode ''G0 X1'')] @ Some Home # abort_queue) abort_world))
       = [Write (''G0 X1'' @ [nl]), Got ''ok'', Write (''$HZ'' @ [nl]), Got ''alarm:3'']
   \<and> fst (sender_loop_sender 5 1 [Some (Gcode ''G0 X1'')] abort_world) = Starved
   \<and> fst (perform_home_sequence_sender 5
              (snd (sender_loop_sender 5 1 [Some (Gcode ''G0 X1'')] abort_world))) = Inr False
   \<and> stop (snd (sender_loop_sender 5 1 ([Some (Gcode ''G0 X1'')] @ Some Home # abort_queue)
                   abort_world))
   \<and> trace (snd (sender_loop_sender 5 1 ([Some (Gcode ''G0 X1'')] @ Some Home # abort_queue)
                    abort_world))
       = [Write (''G0 X1'' @ [nl]), Got ''ok'', Write (''$HZ'' @ [nl]), Got ''alarm:3'']"
proof -
  let ?pre = "[Some (Gcode ''G0 X1'')]"
  let ?w1 = "snd (sender_loop 5 1 ?pre abort_world)"
  let ?w2 = "snd (perform_home_sequence 5 ?w1)"
  let ?v1 = "snd (sender_loop_sender 5 1 ?pre abort_world)"
  let ?v2 = "snd (perform_home_sequence_sender 5 ?v1)"
  have a: "fst (sender_loop 5 1 ?pre abort_world) = Starved" by code_simp
  have a': "sender_loop 5 1 ?pre abort_world = (Starved, ?w1)"
    by (rule prod_eqI) (simp_all only: a fst_conv snd_conv)
  have b: "fst (perform_home_sequence 5 ?w1) = Inr False" by code_simp
  have b': "perform_home_sequence 5 ?w1 = (Inr False, ?w2)"
    by (rule prod_eqI) (simp_all only: b fst_conv snd_conv)
  have t: "trace ?w2 = [Write (''G0 X1'' @ [nl]), Got ''ok'', Write (''$HZ'' @ [nl]), Got ''alarm:3'']"
    by code_simp
  have c: "fst (sender_loop_sender 5 1 ?pre abort_world) = Starved" by code_simp
  have c': "sender_loop_sender 5 1 ?pre abort_world = (Starved, ?v1)"
    by (rule prod_eqI) (simp_all only: c fst_conv snd_conv)
  have d: "fst (perform_home_sequence_sender 5 ?v1) = Inr False" by code_simp
  have d': "perform_home_sequence_sender 5 ?v1 = (Inr False, ?v2)"
    by (rule prod_eqI) (simp_all only: d fst_conv snd_conv)
  have u: "trace ?v2 = [Write (''G0 X1'' @ [nl]), Got ''ok'', Write (''$HZ'' @ [nl]), Got ''alarm:3'']"
    by code_simp
  note h = fatal_homing_failure_stops_dispatch [of 5 1 ?pre abort_world ?w1 ?w2 abort_queue,
      THEN conjunct1, rule_format, OF conjI, OF a' b']
  note s = fatal_homing_failure_stops_dispatch [of 5 1 ?pre abort_world ?v1 ?v2 abort_queue,
      THEN conjunct2, rule_format, OF conjI, OF c' d']
  from h have h1: "fst (sender_loop 5 1 (?pre @ Some Home # abort_queue) abort_world) = Returned"
    by (simp only: fst_conv)
  from h [THEN conjunct2, THEN conjunct2] t
  have h2: "trace (snd (sender_loop 5 1 (?pre @ Some Home # abort_queue) abort_world))
       = [Write (''G0 X1'' @ [nl]), Got ''ok'', Write (''$HZ'' @ [nl]), Got ''alarm:3'']"
    by (rule trans)
  from s [THEN conjunct2, THEN conjunct2] u
  have s2: "trace (snd (sender_loop_sender 5 1 (?pre @ Some Home # abort_queue) abort_world))
       = [Write (''G0 X1'' @ [nl]), Got ''ok'', Write (''$HZ'' @ [nl]), Got ''alarm:3'']"
    by (rule trans)
  from a b h1 h h2 c d s s2 show ?thesis by blast
qed

end
